theory Spec2Isabelle
  imports Main
begin

section \<open>Python strings\<close>

text \<open>
  A Python \<open>str\<close> is modelled as a \<open>string\<close> (a list of 8-bit characters), so the model
  covers the code points below 256.  On that range \<open>str.isspace\<close>, and with it
  \<open>str.strip()\<close> and the class \<open>\s\<close> of \<open>re\<close>, accept the twelve characters listed below;
  \<open>\d\<close> accepts the ten ASCII digits only.
\<close>

definition ESC :: char where
  "ESC = CHR 0x1B"

definition NL :: char where
  "NL = CHR 0x0A"

definition isspace :: "char \<Rightarrow> bool" where
  "isspace c = (c \<in> set [CHR 0x09, CHR 0x0A, CHR 0x0B, CHR 0x0C, CHR 0x0D,
                          CHR 0x1C, CHR 0x1D, CHR 0x1E, CHR 0x1F, CHR 0x20,
                          CHR 0x85, CHR 0xA0])"

definition nonspace :: "char \<Rightarrow> bool" where
  "nonspace c = (\<not> isspace c)"

definition isdigit :: "char \<Rightarrow> bool" where
  "isdigit c = (c \<in> set ''0123456789'')"

definition isalpha_ascii :: "char \<Rightarrow> bool" where
  "isalpha_ascii c = (c \<in> set ''abcdefghijklmnopqrstuvwxyzABCDEFGHIJKLMNOPQRSTUVWXYZ'')"

text \<open>\<open>str.strip()\<close>: whitespace is removed at both ends.\<close>

definition strip :: "string \<Rightarrow> string" where
  "strip s = rev (dropWhile isspace (rev (dropWhile isspace s)))"

text \<open>\<open>str.lower()\<close> on the code points below 256: the ASCII capitals and the Latin-1
  capitals \<open>0xC0 .. 0xDE\<close> without the multiplication sign \<open>0xD7\<close> move up by 32.\<close>

definition lower_char :: "char \<Rightarrow> char" where
  "lower_char c =
     (let n = (of_char c :: nat)
      in if (65 \<le> n \<and> n \<le> 90) \<or> (192 \<le> n \<and> n \<le> 222 \<and> n \<noteq> 215)
         then (case c of Char b0 b1 b2 b3 b4 b5 b6 b7 \<Rightarrow> Char b0 b1 b2 b3 b4 True b6 b7)
         else c)"

definition lower :: "string \<Rightarrow> string" where
  "lower s = map lower_char s"

text \<open>\<open>x in s\<close> for strings: \<open>x\<close> occurs in \<open>s\<close> as a contiguous piece.\<close>

fun starts_with :: "string \<Rightarrow> string \<Rightarrow> bool" where
  "starts_with [] s = True"
| "starts_with (x # xs) [] = False"
| "starts_with (x # xs) (c # cs) = (x = c \<and> starts_with xs cs)"

fun str_in :: "string \<Rightarrow> string \<Rightarrow> bool" where
  "str_in x [] = (x = [])"
| "str_in x (c # cs) = (starts_with x (c # cs) \<or> str_in x cs)"

text \<open>\<open>s.split('\n')\<close>: the pieces between the newlines, at least one piece.\<close>

fun split_nl :: "string \<Rightarrow> string list" where
  "split_nl [] = [[]]"
| "split_nl (c # cs) =
     (if c = NL then [] # split_nl cs
      else (case split_nl cs of l # ls \<Rightarrow> (c # l) # ls | [] \<Rightarrow> [[c]]))"

section \<open>The fragment of \<open>re\<close> that the program uses\<close>

text \<open>
  The patterns of the program are built from literal text (\<open>Str\<close>), one character of a
  class (\<open>Cls\<close>), a class repeated a fixed number of times (\<open>Rep\<close>, as in \<open>\d{4}\<close>), the
  greedy \<open>*\<close> and \<open>+\<close> of a class (\<open>Star\<close>, \<open>Plus\<close>), capture groups (\<open>Grp\<close>),
  concatenation (\<open>Cat\<close>) and the anchors \<open>^\<close> and \<open>$\<close> (\<open>Bol\<close>, \<open>Eol\<close>).  No pattern is
  compiled with a flag that changes them: the start pattern is searched with the
  multi-line flag, which only changes \<open>^\<close> and \<open>$\<close>, and it has neither.

  A match state is the position in the subject, the text that is left from there on,
  and the groups captured so far.  \<open>ms r x\<close> lists every way in which \<open>r\<close> can match from
  the state \<open>x\<close>, in the order in which the backtracking matcher of \<open>re\<close> tries them: a
  greedy repetition tries the longest run first and gives characters back one by one.
  The match that \<open>re\<close> reports at a position is the head of that list.  \<open>^\<close> matches at
  position 0 only, \<open>$\<close> at the end of the subject and before a newline that ends it.
\<close>

datatype regex =
    Str string
  | Cls "char \<Rightarrow> bool"
  | Rep nat "char \<Rightarrow> bool"
  | Star "char \<Rightarrow> bool"
  | Plus "char \<Rightarrow> bool"
  | Grp nat regex
  | Cat regex regex
  | Bol
  | Eol

type_synonym groups = "nat \<rightharpoonup> string"
type_synonym mstate = "nat \<times> string \<times> groups"

fun star :: "(char \<Rightarrow> bool) \<Rightarrow> nat \<Rightarrow> string \<Rightarrow> groups \<Rightarrow> mstate list" where
  "star P p [] g = [(p, [], g)]"
| "star P p (c # cs) g = (if P c then star P (Suc p) cs g else []) @ [(p, c # cs, g)]"

primrec ms :: "regex \<Rightarrow> mstate \<Rightarrow> mstate list" where
  "ms (Str s) x =
     (case x of (p, a, g) \<Rightarrow>
        if starts_with s a then [(p + length s, drop (length s) a, g)] else [])"
| "ms (Cls P) x =
     (case x of (p, a, g) \<Rightarrow>
        (case a of [] \<Rightarrow> [] | c # cs \<Rightarrow> if P c then [(Suc p, cs, g)] else []))"
| "ms (Rep n P) x =
     (case x of (p, a, g) \<Rightarrow>
        if length (take n a) = n \<and> list_all P (take n a) then [(p + n, drop n a, g)]
        else [])"
| "ms (Star P) x = (case x of (p, a, g) \<Rightarrow> star P p a g)"
| "ms (Plus P) x =
     (case x of (p, a, g) \<Rightarrow>
        (case a of [] \<Rightarrow> [] | c # cs \<Rightarrow> if P c then star P (Suc p) cs g else []))"
| "ms (Grp n r) x =
     (case x of (p, a, g) \<Rightarrow>
        map (\<lambda>(q, a', g'). (q, a', g'(n \<mapsto> take (q - p) a))) (ms r x))"
| "ms (Cat r1 r2) x = concat (map (ms r2) (ms r1 x))"
| "ms Bol x = (case x of (p, a, g) \<Rightarrow> if p = 0 then [x] else [])"
| "ms Eol x = (case x of (p, a, g) \<Rightarrow> if a = [] \<or> a = [NL] then [x] else [])"

primrec seq :: "regex list \<Rightarrow> regex" where
  "seq [] = Str []"
| "seq (r # rs) = Cat r (seq rs)"

record match =
  m_start :: nat
  m_end :: nat
  m_groups :: groups

text \<open>\<open>re.search\<close>: the first start position, from the left, at which the pattern matches.\<close>

fun search_from :: "regex \<Rightarrow> nat \<Rightarrow> string \<Rightarrow> match option" where
  "search_from r p a =
     (case ms r (p, a, Map.empty) of
        (q, a', g) # _ \<Rightarrow> Some \<lparr>m_start = p, m_end = q, m_groups = g\<rparr>
      | [] \<Rightarrow> (case a of [] \<Rightarrow> None | c # cs \<Rightarrow> search_from r (Suc p) cs))"

declare search_from.simps [simp del]

definition re_search :: "regex \<Rightarrow> string \<Rightarrow> match option" where
  "re_search r s = search_from r 0 s"

text \<open>
  \<open>re.sub(pattern, '', s)\<close>: every match, found from left to right without overlap, is
  deleted.  An empty match is replaced by the empty string, which changes nothing, so the
  scan moves on by one character there as it does where the pattern does not match (none
  of the patterns that the program passes to \<open>re.sub\<close> can match the empty string).
\<close>

function sub_from :: "regex \<Rightarrow> nat \<Rightarrow> string \<Rightarrow> string" where
  "sub_from r p a =
     (case ms r (p, a, Map.empty) of
        (q, a', g) # _ \<Rightarrow>
          if p < q then sub_from r q a'
          else (case a of [] \<Rightarrow> [] | c # cs \<Rightarrow> c # sub_from r (Suc p) cs)
      | [] \<Rightarrow> (case a of [] \<Rightarrow> [] | c # cs \<Rightarrow> c # sub_from r (Suc p) cs))"
  by pat_completeness auto
termination
proof -
  have star_len: "length a' + q = length a + p"
    if "(q, a', g') \<in> set (star P p a g)" for P p a g q a' g'
    using that by (induction a arbitrary: p) (auto split: if_splits)
  have sw: "starts_with s a \<Longrightarrow> length s \<le> length a" for s a
    by (induction s a rule: starts_with.induct) auto
  have len: "length a' + q = length a + p"
    if "(q, a', g') \<in> set (ms r (p, a, g))" for r p a g q a' g'
    using that
  proof (induction r arbitrary: p a g q a' g')
    case (Str s)
    then show ?case by (auto split: if_splits dest: sw)
  next
    case (Star P)
    then show ?case by (auto dest: star_len)
  next
    case (Plus P)
    then show ?case by (auto split: list.splits if_splits dest: star_len)
  next
    case (Cat r1 r2)
    from Cat.prems obtain z where z: "z \<in> set (ms r1 (p, a, g))" "(q, a', g') \<in> set (ms r2 z)"
      by auto
    obtain p1 a1 g1 where z_eq: "z = (p1, a1, g1)" by (cases z)
    from Cat.IH(1) [of p1 a1 g1 p a g] Cat.IH(2) [of q a' g' p1 a1 g1] z z_eq
    show ?case by simp
  qed (auto split: list.splits if_splits)
  have shorter: "length a' < length a"
    if "ms r (p, a, Map.empty) = (q, a', g') # rest" "p < q" for r p a q a' g' rest
  proof -
    from that(1) have "(q, a', g') \<in> set (ms r (p, a, Map.empty))" by simp
    from len [OF this] that(2) show ?thesis by simp
  qed
  show ?thesis
    by (relation "measure (\<lambda>(r, p, a). length a)") (auto dest: shorter)
qed

declare sub_from.simps [simp del]

definition re_sub :: "regex \<Rightarrow> string \<Rightarrow> string" where
  "re_sub r s = sub_from r 0 s"

section \<open>The patterns of the program\<close>

text \<open>\<open>\d{4}-\d{2}-\d{2}T\d{2}:\d{2}:\d{2}\.\d+Z -- \<close>, the timestamp that starts a log line.\<close>

definition timestamp :: "regex list" where
  "timestamp =
     [Rep 4 isdigit, Str ''-'', Rep 2 isdigit, Str ''-'', Rep 2 isdigit, Str ''T'',
      Rep 2 isdigit, Str '':'', Rep 2 isdigit, Str '':'', Rep 2 isdigit, Str ''.'',
      Plus isdigit, Str ''Z -- '']"

text \<open>\<open>\x1b\[1;33m=== ... ===\x1b\[m\<close>, the row of 73 equals signs in bold yellow.\<close>

definition equals_row :: string where
  "equals_row =
     ''=========================================================================''"

definition rule_row :: string where
  "rule_row = ESC # ''[1;33m'' @ equals_row @ ESC # ''[m''"

definition end_pattern :: regex where
  "end_pattern = seq (timestamp @ [Str rule_row])"

definition start_pattern :: regex where
  "start_pattern =
     seq (timestamp @ [Str rule_row, Str [NL]] @
          timestamp @ [Str (ESC # ''[1;33m= Dependency report''), Star isspace, Str ''='',
                       Star isspace, Str (ESC # ''[m''), Str [NL]] @
          timestamp @ [Str rule_row])"

text \<open>The patterns of \<open>_clean_line\<close>, in the order of the source: the timestamp at the
  start of the line, \<open>\x1b\[[0-9;]*[a-zA-Z]\<close>, \<open>\x1b\[m\<close>, \<open>\x1b\[K\<close>,
  \<open>\x1b\[[0-9]*[ABCD]\<close> and \<open>^--+\s*\<close>.\<close>

definition ts_prefix_re :: regex where
  "ts_prefix_re = seq (Bol # timestamp)"

definition ansi_re :: regex where
  "ansi_re = seq [Str (ESC # ''[''), Star (\<lambda>c. isdigit c \<or> c = CHR '';''), Cls isalpha_ascii]"

definition reset_re :: regex where
  "reset_re = Str (ESC # ''[m'')"

definition clear_re :: regex where
  "clear_re = Str (ESC # ''[K'')"

definition cursor_re :: regex where
  "cursor_re = seq [Str (ESC # ''[''), Star isdigit, Cls (\<lambda>c. c \<in> set ''ABCD'')]"

definition bullet_re :: regex where
  "bullet_re = seq [Bol, Str ''-'', Plus (\<lambda>c. c = CHR ''-''), Star isspace]"

text \<open>The patterns of \<open>_parse_dependencies\<close>:
  \<open>(\S+)\s+(\S+)\s*$\<close>, \<open>(\S+) \(([^)]+)\)$\<close>,
  \<open>(\S+) (\S+)  \((\S+) BUILT LOCALLY\)$\<close> and \<open>(\S+) (\S+)$\<close>.\<close>

definition found_re :: regex where
  "found_re = seq [Grp 1 (Plus nonspace), Plus isspace, Grp 2 (Plus nonspace), Star isspace, Eol]"

definition too_old_re :: regex where
  "too_old_re =
     seq [Grp 1 (Plus nonspace), Str '' ('', Grp 2 (Plus (\<lambda>c. c \<noteq> CHR '')'')), Str '')'', Eol]"

definition built_locally_re :: regex where
  "built_locally_re =
     seq [Grp 1 (Plus nonspace), Str '' '', Grp 2 (Plus nonspace), Str ''  ('',
          Grp 3 (Plus nonspace), Str '' BUILT LOCALLY)'', Eol]"

definition name_version_re :: regex where
  "name_version_re = seq [Grp 1 (Plus nonspace), Str '' '', Grp 2 (Plus nonspace), Eol]"

section \<open>The line cleaner\<close>

text \<open>\<open>_clean_line\<close>: strip, six substitutions, strip.\<close>

definition clean_line :: "string \<Rightarrow> string" where
  "clean_line line0 =
     (let line = strip line0;
          line = re_sub ts_prefix_re line;
          line = re_sub ansi_re line;
          line = re_sub reset_re line;
          line = re_sub clear_re line;
          line = re_sub cursor_re line;
          line = re_sub bullet_re line
      in strip line)"

section \<open>The entry parser\<close>

text \<open>
  An entry holds what \<open>group(1)\<close> and \<open>group(2)\<close> of a match return, or the cleaned line and
  \<open>None\<close>.  The dictionary \<open>dependencies\<close> has four fixed keys, so it is a record of four
  lists and a key is a value of \<open>category\<close>.
\<close>

record entry =
  package :: "string option"
  version :: "string option"

record deps =
  dependencies_found_externally :: "entry list"
  dependencies_too_old :: "entry list"
  dependencies_built_locally :: "entry list"
  dependencies_not_found :: "entry list"

datatype category = Found_externally | Too_old | Built_locally | Not_found

datatype py_error = UnboundLocalError | KeyError

text \<open>
  The local variable \<open>version_match\<close> is assigned inside the loop body only, in the
  branches of three of the four categories, and keeps its value from one line to the next.
  It is part of the loop state: not yet assigned, or the result of the last search.
\<close>

datatype binding = Unbound | Bound "match option"

record pstate =
  dependencies :: deps
  current_section :: "category option"
  version_match :: binding

definition append_entry :: "category \<Rightarrow> entry \<Rightarrow> deps \<Rightarrow> deps" where
  "append_entry k e d =
     (case k of
        Found_externally \<Rightarrow>
          d\<lparr>dependencies_found_externally := dependencies_found_externally d @ [e]\<rparr>
      | Too_old \<Rightarrow> d\<lparr>dependencies_too_old := dependencies_too_old d @ [e]\<rparr>
      | Built_locally \<Rightarrow>
          d\<lparr>dependencies_built_locally := dependencies_built_locally d @ [e]\<rparr>
      | Not_found \<Rightarrow> d\<lparr>dependencies_not_found := dependencies_not_found d @ [e]\<rparr>)"

text \<open>Lines 242 to 254: the entry is built from \<open>version_match\<close> and appended to the list of
  the current section.\<close>

definition make_entry :: "string \<Rightarrow> match option \<Rightarrow> entry" where
  "make_entry clean vm =
     (case vm of
        Some m \<Rightarrow> \<lparr>package = m_groups m 1, version = m_groups m 2\<rparr>
      | None \<Rightarrow> \<lparr>package = Some clean, version = None\<rparr>)"

definition record_entry :: "string \<Rightarrow> pstate \<Rightarrow> py_error + pstate" where
  "record_entry clean st =
     (case version_match st of
        Unbound \<Rightarrow> Inl UnboundLocalError
      | Bound vm \<Rightarrow>
          (case current_section st of
             None \<Rightarrow> Inl KeyError
           | Some k \<Rightarrow>
               Inr (st\<lparr>dependencies := append_entry k (make_entry clean vm) (dependencies st)\<rparr>)))"

text \<open>Lines 229 to 240: the search that belongs to the current section.  Under
  \<open>dependencies_built_locally\<close> no branch is taken and nothing is assigned.\<close>

definition probe :: "category \<Rightarrow> string \<Rightarrow> pstate \<Rightarrow> pstate" where
  "probe k clean st =
     (case k of
        Found_externally \<Rightarrow> st\<lparr>version_match := Bound (re_search found_re clean)\<rparr>
      | Too_old \<Rightarrow> st\<lparr>version_match := Bound (re_search too_old_re clean)\<rparr>
      | Not_found \<Rightarrow>
          (case re_search built_locally_re clean of
             None \<Rightarrow> st\<lparr>version_match := Bound None\<rparr>
           | Some m \<Rightarrow>
               st\<lparr>current_section := Some Built_locally,
                  version_match := Bound (re_search name_version_re clean)\<rparr>)
      | Built_locally \<Rightarrow> st)"

text \<open>The body of the loop over the lines of the section.\<close>

definition parse_line :: "string \<Rightarrow> pstate \<Rightarrow> py_error + pstate" where
  "parse_line line st =
     (let clean = clean_line line
      in if clean = [] then Inr st
         else if str_in ''the following dependencies found externally:'' (lower clean)
           then Inr (st\<lparr>current_section := Some Found_externally\<rparr>)
         else if str_in ''the following dependencies were found but were too old:''
                   (lower clean)
           then Inr (st\<lparr>current_section := Some Too_old\<rparr>)
         else if str_in ''the following dependencies were not found'' (lower clean)
           then Inr (st\<lparr>current_section := Some Not_found\<rparr>)
         else (case current_section st of
                 None \<Rightarrow> Inr st
               | Some k \<Rightarrow>
                   if str_in ''dependencies'' (lower clean) then Inr st
                   else record_entry clean (probe k clean st)))"

fun parse_lines :: "string list \<Rightarrow> pstate \<Rightarrow> py_error + pstate" where
  "parse_lines [] st = Inr st"
| "parse_lines (line # lines) st =
     (case parse_line line st of Inl e \<Rightarrow> Inl e | Inr st' \<Rightarrow> parse_lines lines st')"

definition initial :: pstate where
  "initial =
     \<lparr>dependencies =
        \<lparr>dependencies_found_externally = [], dependencies_too_old = [],
         dependencies_built_locally = [], dependencies_not_found = []\<rparr>,
      current_section = None, version_match = Unbound\<rparr>"

definition parse_dependencies :: "string \<Rightarrow> py_error + deps" where
  "parse_dependencies section =
     (case parse_lines (split_nl section) initial of
        Inl e \<Rightarrow> Inl e
      | Inr st \<Rightarrow> Inr (dependencies st))"

section \<open>The section locator\<close>

text \<open>The dictionary returned by \<open>parse_dependency_section\<close> has either the single key
  \<open>error\<close> or the four lists.\<close>

datatype result = Error string | Report deps

definition parse_dependency_section :: "string \<Rightarrow> py_error + result" where
  "parse_dependency_section log_content =
     (case re_search start_pattern log_content of
        None \<Rightarrow> Inr (Error ''Dependency report section not found'')
      | Some start_match \<Rightarrow>
          (let start_pos = m_end start_match
           in case re_search end_pattern (drop start_pos log_content) of
                None \<Rightarrow> Inr (Error ''End of dependency report section not found'')
              | Some end_match \<Rightarrow>
                  (let end_pos = start_pos + m_start end_match;
                       dependency_section =
                         strip (take (end_pos - start_pos) (drop start_pos log_content))
                   in case parse_dependencies dependency_section of
                        Inl e \<Rightarrow> Inl e
                      | Inr d \<Rightarrow> Inr (Report d))))"

section \<open>What a pattern matches\<close>

text \<open>
  The words of a pattern, without any order among them: \<open>rmatch r p w a\<close> says that \<open>r\<close>
  matches the word \<open>w\<close> when \<open>w\<close> starts at position \<open>p\<close> of the subject and is followed
  by \<open>a\<close>.  The position and the rest matter to the anchors only.  \<open>occurs r s\<close> says that
  \<open>r\<close> matches some piece of \<open>s\<close>.
\<close>

primrec rmatch :: "regex \<Rightarrow> nat \<Rightarrow> string \<Rightarrow> string \<Rightarrow> bool" where
  "rmatch (Str s) p w a = (w = s)"
| "rmatch (Cls P) p w a = (\<exists>c. w = [c] \<and> P c)"
| "rmatch (Rep n P) p w a = (length w = n \<and> list_all P w)"
| "rmatch (Star P) p w a = list_all P w"
| "rmatch (Plus P) p w a = (w \<noteq> [] \<and> list_all P w)"
| "rmatch (Grp n r) p w a = rmatch r p w a"
| "rmatch (Cat r1 r2) p w a =
     (\<exists>u v. w = u @ v \<and> rmatch r1 p u (v @ a) \<and> rmatch r2 (p + length u) v a)"
| "rmatch Bol p w a = (w = [] \<and> p = 0)"
| "rmatch Eol p w a = (w = [] \<and> (a = [] \<or> a = [NL]))"

definition occurs :: "regex \<Rightarrow> string \<Rightarrow> bool" where
  "occurs r s = (\<exists>pre w post. s = pre @ w @ post \<and> rmatch r (length pre) w post)"

text \<open>\<open>found r s\<close>: the search \<open>re.search(r, s)\<close> returns a match.\<close>

definition found :: "regex \<Rightarrow> string \<Rightarrow> bool" where
  "found r s = (case re_search r s of None \<Rightarrow> False | Some m \<Rightarrow> True)"


text \<open>The length of the shortest word that a pattern can match.\<close>

primrec minlen :: "regex \<Rightarrow> nat" where
  "minlen (Str s) = length s"
| "minlen (Cls P) = 1"
| "minlen (Rep n P) = n"
| "minlen (Star P) = 0"
| "minlen (Plus P) = 1"
| "minlen (Grp n r) = minlen r"
| "minlen (Cat r1 r2) = minlen r1 + minlen r2"
| "minlen Bol = 0"
| "minlen Eol = 0"

text \<open>A pattern is prefix-free when, from one position of one subject, it cannot match two
  words of different lengths: the end of a match is then fixed by its start.\<close>

definition pfree :: "regex \<Rightarrow> bool" where
  "pfree r = (\<forall>p w a w' a'. rmatch r p w a \<longrightarrow> rmatch r p w' a' \<longrightarrow> w @ a = w' @ a' \<longrightarrow> w = w')"

text \<open>\<open>first_occurrence r pre w post\<close>: in the text \<open>pre @ w @ post\<close> the pattern matches the
  word \<open>w\<close> right after \<open>pre\<close>, and it matches nowhere further to the left.\<close>

definition first_occurrence :: "regex \<Rightarrow> string \<Rightarrow> string \<Rightarrow> string \<Rightarrow> bool" where
  "first_occurrence r pre w post =
     (rmatch r (length pre) w post \<and>
      (\<forall>pre' w' post'. pre @ w @ post = pre' @ w' @ post' \<and> rmatch r (length pre') w' post' \<longrightarrow>
         length pre \<le> length pre'))"

text \<open>The whitespace-separated tokens of a line, in the words of the specification: the
  maximal runs of characters that are not whitespace, from left to right (what
  \<open>str.split()\<close> returns).  \<open>tok cur s\<close> carries the token that is being read.\<close>

fun tok :: "string \<Rightarrow> string \<Rightarrow> string list" where
  "tok cur [] = (if cur = [] then [] else [cur])"
| "tok cur (c # cs) =
     (if isspace c then (if cur = [] then tok [] cs else cur # tok [] cs)
      else tok (cur @ [c]) cs)"

definition tokens :: "string \<Rightarrow> string list" where
  "tokens s = tok [] s"

text \<open>A token is a non-empty run of characters that are not whitespace.
  \<open>last_two_tokens c t1 t2\<close>: the line \<open>c\<close> ends with the token \<open>t1\<close>, whitespace and the
  token \<open>t2\<close>, and what stands before \<open>t1\<close> is nothing or ends with whitespace.\<close>

definition token :: "string \<Rightarrow> bool" where
  "token t = (t \<noteq> [] \<and> list_all nonspace t)"

definition last_two_tokens :: "string \<Rightarrow> string \<Rightarrow> string \<Rightarrow> bool" where
  "last_two_tokens c t1 t2 =
     (\<exists>pre ws. c = pre @ t1 @ ws @ t2 \<and> (pre = [] \<or> isspace (last pre)) \<and> token t1 \<and>
        ws \<noteq> [] \<and> list_all isspace ws \<and> token t2)"

section \<open>Header lines and data lines\<close>

text \<open>A cleaned line is a header when one of the three tests of lines 213 to 221 accepts it.
  It is a data line, one that reaches the code from line 229 on, when it is not empty, is
  not a header and passes the test of line 226.\<close>

definition is_header :: "string \<Rightarrow> bool" where
  "is_header clean =
     (str_in ''the following dependencies found externally:'' (lower clean) \<or>
      str_in ''the following dependencies were found but were too old:'' (lower clean) \<or>
      str_in ''the following dependencies were not found'' (lower clean))"

definition is_data :: "string \<Rightarrow> bool" where
  "is_data clean =
     (clean \<noteq> [] \<and> \<not> is_header clean \<and> \<not> str_in ''dependencies'' (lower clean))"

text \<open>The loop invariant: under \<open>dependencies_built_locally\<close> the variable \<open>version_match\<close>
  has been assigned.\<close>

definition assigned :: "pstate \<Rightarrow> bool" where
  "assigned st = (current_section st = Some Built_locally \<longrightarrow> version_match st \<noteq> Unbound)"

section \<open>Sample inputs\<close>

text \<open>The literal section of the specification's example.\<close>

definition sample_section :: string where
  "sample_section =
     ''Dependencies found externally:'' @ [NL] @
     ''  cmake 3.28.1'' @ [NL] @
     ''  boost 1.84.0'' @ [NL] @
     ''Dependencies not found:'' @ [NL] @
     ''  missing_package'' @ [NL] @
     ''Dependencies not found (BUILT LOCALLY):'' @ [NL] @
     ''  openexr 3.2.0''"

definition no_entries :: deps where
  "no_entries =
     \<lparr>dependencies_found_externally = [], dependencies_too_old = [],
      dependencies_built_locally = [], dependencies_not_found = []\<rparr>"

text \<open>A state whose current section is \<open>dependencies_not_found\<close>, as the header line
  leaves it.\<close>

definition under_not_found :: pstate where
  "under_not_found = initial\<lparr>current_section := Some Not_found\<rparr>"

definition under_found_externally :: pstate where
  "under_found_externally = initial\<lparr>current_section := Some Found_externally\<rparr>"

text \<open>A log line as the build prints it: timestamp, colour code, text, reset code.\<close>

definition decorated_line :: string where
  "decorated_line =
     ''2025-07-04T08:10:03.4961000Z -- '' @ ESC # ''[1;37m  cmake 3.28.1'' @ ESC # ''[m''"

text \<open>Pieces of a build log: a timestamp, the opening banner as the build prints it, and
  the same banner without escape sequences.\<close>

definition stamp :: string where
  "stamp = ''2025-07-04T08:10:03.4957678Z -- ''"

definition opening_banner :: string where
  "opening_banner =
     stamp @ rule_row @ [NL] @
     stamp @ ESC # ''[1;33m= Dependency report                    ='' @ ESC # ''[m'' @ [NL] @
     stamp @ rule_row"

definition plain_banner :: string where
  "plain_banner =
     stamp @ equals_row @ [NL] @
     stamp @ ''= Dependency report                    ='' @ [NL] @
     stamp @ equals_row"

definition plain_log :: string where
  "plain_log =
     ''Some build output...'' @ [NL] @
     plain_banner @ [NL] @
     stamp @ ''The following dependencies found externally:'' @ [NL] @
     stamp @ ''  cmake 3.28.1'' @ [NL] @
     stamp @ equals_row @ [NL]"

definition build_output :: string where
  "build_output = ''Some build output...'' @ [NL]"

definition open_section :: string where
  "open_section =
     [NL] @
     stamp @ ESC # ''[1;32mThe following dependencies found externally:'' @ ESC # ''[m'' @ [NL] @
     stamp @ ESC # ''[1;37m  cmake 3.28.1'' @ ESC # ''[m'' @ [NL]"

text \<open>The sample log of the repository's test \<open>test_timestamp_parsing.py\<close>, character by
  character.  The test asserts that parsing it gives three entries found externally, one
  not found and two built locally.\<close>

definition test_log :: string where
  "test_log =
     [NL] @
     ''Some build output...'' @ [NL] @
     [NL] @
     ''2025-07-04T08:10:03.4957678Z -- '' @ [ESC] @ ''[1;33m========================================================================='' @ [ESC] @ ''[m'' @ [NL] @
     ''2025-07-04T08:10:03.4958488Z -- '' @ [ESC] @ ''[1;33m= Dependency report                                                     ='' @ [ESC] @ ''[m'' @ [NL] @
     ''2025-07-04T08:10:03.4959252Z -- '' @ [ESC] @ ''[1;33m========================================================================='' @ [ESC] @ ''[m'' @ [NL] @
     [NL] @
     ''2025-07-04T08:10:03.4960000Z -- '' @ [ESC] @ ''[1;32mDependencies found externally:'' @ [ESC] @ ''[m'' @ [NL] @
     ''2025-07-04T08:10:03.4961000Z -- '' @ [ESC] @ ''[1;37m  cmake 3.28.1'' @ [ESC] @ ''[m'' @ [NL] @
     ''2025-07-04T08:10:03.4962000Z -- '' @ [ESC] @ ''[1;37m  boost 1.84.0'' @ [ESC] @ ''[m'' @ [NL] @
     ''2025-07-04T08:10:03.4963000Z -- '' @ [ESC] @ ''[1;37m  openexr 3.2.0'' @ [ESC] @ ''[m'' @ [NL] @
     [NL] @
     ''2025-07-04T08:10:03.4964000Z -- '' @ [ESC] @ ''[1;31mDependencies not found:'' @ [ESC] @ ''[m'' @ [NL] @
     ''2025-07-04T08:10:03.4965000Z -- '' @ [ESC] @ ''[1;37m  missing_package'' @ [ESC] @ ''[m'' @ [NL] @
     [NL] @
     ''2025-07-04T08:10:03.4966000Z -- '' @ [ESC] @ ''[1;33mDependencies not found (BUILT LOCALLY):'' @ [ESC] @ ''[m'' @ [NL] @
     ''2025-07-04T08:10:03.4967000Z -- '' @ [ESC] @ ''[1;37m  boost 1.84.0'' @ [ESC] @ ''[m'' @ [NL] @
     ''2025-07-04T08:10:03.4968000Z -- '' @ [ESC] @ ''[1;37m  openexr 3.2.0'' @ [ESC] @ ''[m'' @ [NL] @
     [NL] @
     ''2025-07-04T08:10:03.4969461Z -- '' @ [ESC] @ ''[1;33m========================================================================='' @ [ESC] @ ''[m'' @ [NL] @
     [NL] @
     ''More build output...'' @ [NL]"

section \<open>The matcher finds exactly what the pattern matches\<close>

lemma starts_with_iff: "starts_with s a \<longleftrightarrow> (\<exists>b. a = s @ b)"
  by (induction s a rule: starts_with.induct) auto

lemma star_iff:
  "(q, a', g') \<in> set (star P p a g) \<longleftrightarrow>
     g' = g \<and> (\<exists>w. a = w @ a' \<and> q = p + length w \<and> list_all P w)"
proof (induction a arbitrary: p)
  case Nil
  then show ?case by auto
next
  case (Cons c cs)
  show ?case
  proof
    assume "(q, a', g') \<in> set (star P p (c # cs) g)"
    then consider "P c" "(q, a', g') \<in> set (star P (Suc p) cs g)" | "q = p" "a' = c # cs" "g' = g"
      by (auto split: if_splits)
    then show "g' = g \<and> (\<exists>w. c # cs = w @ a' \<and> q = p + length w \<and> list_all P w)"
    proof cases
      case 1
      with Cons.IH [of "Suc p"] obtain w where "g' = g" "cs = w @ a'" "q = Suc p + length w" "list_all P w"
        by auto
      with 1(1) show ?thesis by (intro conjI exI [of _ "c # w"]) auto
    next
      case 2
      then show ?thesis by (intro conjI exI [of _ "[]"]) auto
    qed
  next
    assume r: "g' = g \<and> (\<exists>w. c # cs = w @ a' \<and> q = p + length w \<and> list_all P w)"
    then obtain w where w: "c # cs = w @ a'" "q = p + length w" "list_all P w" by auto
    show "(q, a', g') \<in> set (star P p (c # cs) g)"
    proof (cases w)
      case Nil
      with w r show ?thesis by auto
    next
      case (Cons d w')
      with w have "d = c" "cs = w' @ a'" "P c" "list_all P w'" "q = Suc p + length w'" by auto
      with Cons.IH [of "Suc p"] r show ?thesis by auto
    qed
  qed
qed

lemma ms_iff:
  "(\<exists>g'. (q, a', g') \<in> set (ms r (p, a, g))) \<longleftrightarrow>
     (\<exists>w. a = w @ a' \<and> q = p + length w \<and> rmatch r p w a')"
proof (induction r arbitrary: p a g q a')
  case (Str s)
  then show ?case by (auto simp: starts_with_iff)
next
  case (Cls P)
  then show ?case by (auto split: list.splits)
next
  case (Rep n P)
  show ?case
  proof
    assume "\<exists>g'. (q, a', g') \<in> set (ms (Rep n P) (p, a, g))"
    then have "n \<le> length a" "list_all P (take n a)" "q = p + n" "a' = drop n a"
      by (auto split: if_splits)
    then show "\<exists>w. a = w @ a' \<and> q = p + length w \<and> rmatch (Rep n P) p w a'"
      by (intro exI [of _ "take n a"]) auto
  next
    assume "\<exists>w. a = w @ a' \<and> q = p + length w \<and> rmatch (Rep n P) p w a'"
    then show "\<exists>g'. (q, a', g') \<in> set (ms (Rep n P) (p, a, g))" by auto
  qed
next
  case (Star P)
  then show ?case by (auto simp: star_iff)
next
  case (Plus P)
  show ?case
  proof
    assume "\<exists>g'. (q, a', g') \<in> set (ms (Plus P) (p, a, g))"
    then obtain g' c cs where a: "a = c # cs" "P c" "(q, a', g') \<in> set (star P (Suc p) cs g)"
      by (auto split: list.splits if_splits)
    then obtain w where "cs = w @ a'" "q = Suc p + length w" "list_all P w"
      by (auto simp: star_iff)
    with a show "\<exists>w. a = w @ a' \<and> q = p + length w \<and> rmatch (Plus P) p w a'"
      by (intro exI [of _ "c # w"]) auto
  next
    assume "\<exists>w. a = w @ a' \<and> q = p + length w \<and> rmatch (Plus P) p w a'"
    then obtain w where w: "a = w @ a'" "q = p + length w" "w \<noteq> []" "list_all P w" by auto
    then obtain c w' where "w = c # w'" by (cases w) auto
    with w show "\<exists>g'. (q, a', g') \<in> set (ms (Plus P) (p, a, g))"
      by (auto simp: star_iff)
  qed
next
  case (Grp n r)
  have "(\<exists>g'. (q, a', g') \<in> set (ms (Grp n r) (p, a, g))) \<longleftrightarrow>
        (\<exists>g'. (q, a', g') \<in> set (ms r (p, a, g)))"
    by (force simp: image_iff)
  with Grp.IH [of q a' p a g] show ?case by simp
next
  case (Cat r1 r2)
  show ?case
  proof
    assume "\<exists>g'. (q, a', g') \<in> set (ms (Cat r1 r2) (p, a, g))"
    then obtain g' z where z: "z \<in> set (ms r1 (p, a, g))" "(q, a', g') \<in> set (ms r2 z)" by auto
    obtain p1 a1 g1 where z_eq: "z = (p1, a1, g1)" by (cases z)
    from z z_eq Cat.IH(1) [of p1 a1 p a g] obtain u where
      u: "a = u @ a1" "p1 = p + length u" "rmatch r1 p u a1" by blast
    from z z_eq Cat.IH(2) [of q a' p1 a1 g1] obtain v where
      v: "a1 = v @ a'" "q = p1 + length v" "rmatch r2 p1 v a'" by blast
    from u v show "\<exists>w. a = w @ a' \<and> q = p + length w \<and> rmatch (Cat r1 r2) p w a'"
      by (intro exI [of _ "u @ v"]) auto
  next
    assume "\<exists>w. a = w @ a' \<and> q = p + length w \<and> rmatch (Cat r1 r2) p w a'"
    then obtain u v where uv: "a = (u @ v) @ a'" "q = p + length (u @ v)"
      "rmatch r1 p u (v @ a')" "rmatch r2 (p + length u) v a'" by auto
    from uv Cat.IH(1) [of "p + length u" "v @ a'" p a g] obtain g1 where
      g1: "(p + length u, v @ a', g1) \<in> set (ms r1 (p, a, g))" by auto
    from uv Cat.IH(2) [of q a' "p + length u" "v @ a'" g1] obtain g' where
      "(q, a', g') \<in> set (ms r2 (p + length u, v @ a', g1))" by auto
    with g1 show "\<exists>g'. (q, a', g') \<in> set (ms (Cat r1 r2) (p, a, g))" by auto
  qed
next
  case Bol
  then show ?case by auto
next
  case Eol
  then show ?case by auto
qed

lemma ms_empty_iff:
  "ms r (p, a, g) = [] \<longleftrightarrow> \<not> (\<exists>w a'. a = w @ a' \<and> rmatch r p w a')"
proof -
  have "ms r (p, a, g) \<noteq> [] \<longleftrightarrow> (\<exists>q a' g'. (q, a', g') \<in> set (ms r (p, a, g)))"
    by (cases "ms r (p, a, g)") auto
  also have "\<dots> \<longleftrightarrow> (\<exists>q a'. \<exists>w. a = w @ a' \<and> q = p + length w \<and> rmatch r p w a')"
    using ms_iff [of _ _ r p a g] by blast
  finally show ?thesis by auto
qed

lemma search_from_None_iff:
  "search_from r p a = None \<longleftrightarrow> (\<forall>u v. a = u @ v \<longrightarrow> ms r (p + length u, v, Map.empty) = [])"
proof (induction a arbitrary: p)
  case Nil
  then show ?case by (subst search_from.simps) (auto split: list.splits)
next
  case (Cons c cs)
  have split: "(\<forall>u v. c # cs = u @ v \<longrightarrow> Q u v) \<longleftrightarrow> Q [] (c # cs) \<and> (\<forall>u v. cs = u @ v \<longrightarrow> Q (c # u) v)"
    for Q by (auto simp: Cons_eq_append_conv)
  show ?case
    by (subst search_from.simps, subst split) (auto simp: Cons.IH split: list.splits)
qed

lemma re_search_None_iff: "re_search r s = None \<longleftrightarrow> \<not> occurs r s"
  unfolding re_search_def occurs_def search_from_None_iff ms_empty_iff
  by auto

section \<open>The loop over the lines\<close>

lemma parse_line_empty: "clean_line line = [] \<Longrightarrow> parse_line line st = Inr st"
  by (simp add: parse_line_def)

lemma parse_line_data:
  "is_data (clean_line line) \<Longrightarrow> current_section st = Some k \<Longrightarrow>
   parse_line line st = record_entry (clean_line line) (probe k (clean_line line) st)"
  by (simp add: parse_line_def is_data_def is_header_def Let_def)

lemma parse_line_skip:
  "\<not> is_header (clean_line line) \<Longrightarrow> \<not> is_data (clean_line line) \<Longrightarrow>
   parse_line line st = Inr st"
  by (auto simp: parse_line_def is_data_def is_header_def Let_def split: option.splits)

lemma is_header_nonempty: "is_header clean \<Longrightarrow> clean \<noteq> []"
  by (auto simp: is_header_def lower_def)

lemma parse_line_header:
  "is_header (clean_line line) \<Longrightarrow>
   \<exists>k. k \<noteq> Built_locally \<and> parse_line line st = Inr (st\<lparr>current_section := Some k\<rparr>)"
  by (frule is_header_nonempty) (auto simp: parse_line_def is_header_def Let_def)

lemma record_entry_bound:
  "version_match st = Bound vm \<Longrightarrow> current_section st = Some k \<Longrightarrow>
   record_entry clean st =
     Inr (st\<lparr>dependencies := append_entry k (make_entry clean vm) (dependencies st)\<rparr>)"
  by (simp add: record_entry_def)

lemma parse_line_built_locally:
  assumes "current_section st = Some Built_locally" "version_match st = Bound vm"
    and "is_data (clean_line line)"
  shows "parse_line line st =
     Inr (st\<lparr>dependencies :=
            append_entry Built_locally (make_entry (clean_line line) vm) (dependencies st)\<rparr>)"
  using assms by (simp add: parse_line_data probe_def record_entry_bound)

lemma parse_line_reclassify:
  assumes "current_section st = Some Not_found" "is_data (clean_line line)"
    and "re_search built_locally_re (clean_line line) = Some m0"
  shows "parse_line line st =
     Inr (st\<lparr>current_section := Some Built_locally,
            version_match := Bound (re_search name_version_re (clean_line line)),
            dependencies :=
              append_entry Built_locally
                (make_entry (clean_line line) (re_search name_version_re (clean_line line)))
                (dependencies st)\<rparr>)"
  using assms by (simp add: parse_line_data probe_def record_entry_def)

lemma parse_line_total:
  assumes "assigned st"
  shows "\<exists>st'. parse_line line st = Inr st' \<and> assigned st'"
proof (cases "is_header (clean_line line)")
  case True
  from parse_line_header [OF this, of st] show ?thesis by (auto simp: assigned_def)
next
  case False
  show ?thesis
  proof (cases "is_data (clean_line line) \<and> current_section st \<noteq> None")
    case True
    then obtain k where k: "current_section st = Some k" by auto
    show ?thesis
    proof (cases k)
      case Built_locally
      with assms k obtain vm where "version_match st = Bound vm"
        by (cases "version_match st") (auto simp: assigned_def)
      with parse_line_built_locally [of st vm line] True k Built_locally show ?thesis
        by (simp add: assigned_def)
    next
      case Not_found
      with True k show ?thesis
        by (cases "re_search built_locally_re (clean_line line)")
          (simp_all add: parse_line_data probe_def record_entry_def assigned_def)
    qed (use True k in \<open>simp_all add: parse_line_data probe_def record_entry_def assigned_def\<close>)
  next
    case False
    with \<open>\<not> is_header (clean_line line)\<close> have "parse_line line st = Inr st"
      by (auto simp: parse_line_def is_data_def is_header_def Let_def split: option.splits)
    with assms show ?thesis by simp
  qed
qed

lemma parse_lines_total:
  "assigned st \<Longrightarrow> \<exists>st'. parse_lines ls st = Inr st' \<and> assigned st'"
proof (induction ls arbitrary: st)
  case Nil
  then show ?case by simp
next
  case (Cons l ls)
  from parse_line_total [OF Cons.prems, of l] obtain st1 where
    "parse_line l st = Inr st1" "assigned st1" by auto
  with Cons.IH [of st1] show ?case by simp
qed

lemma assigned_initial: "assigned initial"
  by (simp add: assigned_def initial_def)

lemma parse_dependencies_total: "\<exists>d. parse_dependencies section = Inr d"
  using parse_lines_total [OF assigned_initial, of "split_nl section"]
  by (auto simp: parse_dependencies_def)

lemma name_version_after_built_locally:
  assumes "re_search built_locally_re clean = Some m0"
  shows "\<exists>m. re_search name_version_re clean = Some m"
proof -
  from assms have "occurs built_locally_re clean"
    using re_search_None_iff [of built_locally_re clean] by simp
  then obtain pre w post where w: "clean = pre @ w @ post"
    "rmatch built_locally_re (length pre) w post"
    by (auto simp: occurs_def)
  from w(2) obtain x where x: "w = x @ ''BUILT LOCALLY)''" "post = [] \<or> post = [NL]"
    by (auto simp: built_locally_re_def)
  have "rmatch name_version_re (length (pre @ x)) ''BUILT LOCALLY)'' post"
    unfolding name_version_re_def using x(2)
    apply simp
    apply (rule exI [of _ "''BUILT''"])
    apply (simp add: nonspace_def isspace_def)
    done
  with w(1) x(1) have "occurs name_version_re clean"
    unfolding occurs_def by (intro exI [of _ "pre @ x"] exI [of _ "''BUILT LOCALLY)''"] exI [of _ post]) simp
  then show ?thesis
    using re_search_None_iff [of name_version_re clean] by auto
qed

lemma parse_line_data_appends:
  assumes "assigned st" "current_section st = Some k" "is_data (clean_line line)"
  shows "\<exists>k' vm. parse_line line st =
           Inr (st\<lparr>current_section := Some k', version_match := Bound vm,
                  dependencies :=
                    append_entry k' (make_entry (clean_line line) vm) (dependencies st)\<rparr>)"
proof (cases k)
  case Built_locally
  with assms obtain vm where vm: "version_match st = Bound vm"
    by (cases "version_match st") (auto simp: assigned_def)
  from parse_line_built_locally [of st vm line] assms Built_locally vm
  have "parse_line line st =
     Inr (st\<lparr>current_section := Some Built_locally, version_match := Bound vm,
            dependencies :=
              append_entry Built_locally (make_entry (clean_line line) vm) (dependencies st)\<rparr>)"
    by simp
  then show ?thesis by blast
next
  case Not_found
  show ?thesis
  proof (cases "re_search built_locally_re (clean_line line)")
    case None
    with assms Not_found have "parse_line line st =
       Inr (st\<lparr>current_section := Some Not_found, version_match := Bound None,
              dependencies :=
                append_entry Not_found (make_entry (clean_line line) None) (dependencies st)\<rparr>)"
      by (simp add: parse_line_data probe_def record_entry_def)
    then show ?thesis by blast
  next
    case (Some m0)
    from parse_line_reclassify [OF _ assms(3) Some, of st] assms(2) Not_found
    show ?thesis by blast
  qed
next
  case Found_externally
  with assms have "parse_line line st =
     Inr (st\<lparr>current_section := Some Found_externally,
            version_match := Bound (re_search found_re (clean_line line)),
            dependencies :=
              append_entry Found_externally
                (make_entry (clean_line line) (re_search found_re (clean_line line)))
                (dependencies st)\<rparr>)"
    by (simp add: parse_line_data probe_def record_entry_def)
  then show ?thesis by blast
next
  case Too_old
  with assms have "parse_line line st =
     Inr (st\<lparr>current_section := Some Too_old,
            version_match := Bound (re_search too_old_re (clean_line line)),
            dependencies :=
              append_entry Too_old
                (make_entry (clean_line line) (re_search too_old_re (clean_line line)))
                (dependencies st)\<rparr>)"
    by (simp add: parse_line_data probe_def record_entry_def)
  then show ?thesis by blast
qed

lemma built_locally_stays:
  assumes "current_section st = Some Built_locally" "version_match st = Bound vm"
    and "\<forall>l \<in> set ls. \<not> is_header (clean_line l)"
  shows "\<exists>st'. parse_lines ls st = Inr st' \<and> current_section st' = Some Built_locally \<and>
           version_match st' = Bound vm"
  using assms
proof (induction ls arbitrary: st)
  case Nil
  then show ?case by simp
next
  case (Cons l ls)
  have "\<exists>st1. parse_line l st = Inr st1 \<and> current_section st1 = Some Built_locally \<and>
           version_match st1 = Bound vm"
  proof (cases "is_data (clean_line l)")
    case True
    with parse_line_built_locally [of st vm l] Cons.prems show ?thesis by simp
  next
    case False
    with parse_line_skip [of l st] Cons.prems show ?thesis by simp
  qed
  then obtain st1 where "parse_line l st = Inr st1" "current_section st1 = Some Built_locally"
    "version_match st1 = Bound vm" by auto
  with Cons.IH [of st1] Cons.prems(3) show ?case by simp
qed

lemma built_locally_repeats:
  assumes "current_section st = Some Built_locally" "version_match st = Bound (Some m)"
    and "\<forall>l \<in> set ls. \<not> is_header (clean_line l)"
  shows "\<exists>st'. parse_lines ls st = Inr st' \<and>
           dependencies st' =
             (dependencies st)\<lparr>dependencies_built_locally :=
                dependencies_built_locally (dependencies st) @
                replicate (length (filter (\<lambda>l. is_data (clean_line l)) ls))
                  \<lparr>package = m_groups m 1, version = m_groups m 2\<rparr>\<rparr>"
  using assms
proof (induction ls arbitrary: st)
  case Nil
  then show ?case by simp
next
  case (Cons l ls)
  let ?e = "\<lparr>package = m_groups m 1, version = m_groups m 2\<rparr>"
  let ?n = "length (filter (\<lambda>l. is_data (clean_line l)) ls)"
  show ?case
  proof (cases "is_data (clean_line l)")
    case True
    let ?st1 = "st\<lparr>dependencies := append_entry Built_locally ?e (dependencies st)\<rparr>"
    from parse_line_built_locally [of st "Some m" l] Cons.prems True
    have step: "parse_line l st = Inr ?st1" by (simp add: make_entry_def)
    from Cons.IH [of ?st1] Cons.prems obtain st' where st': "parse_lines ls ?st1 = Inr st'"
      "dependencies st' =
         (dependencies ?st1)\<lparr>dependencies_built_locally :=
            dependencies_built_locally (dependencies ?st1) @ replicate ?n ?e\<rparr>"
      by auto
    from step st' True show ?thesis
      by (simp add: append_entry_def replicate_append_same)
  next
    case False
    with parse_line_skip [of l st] Cons.prems have step: "parse_line l st = Inr st" by simp
    from Cons.IH [of st] Cons.prems obtain st' where "parse_lines ls st = Inr st'"
      "dependencies st' =
         (dependencies st)\<lparr>dependencies_built_locally :=
            dependencies_built_locally (dependencies st) @ replicate ?n ?e\<rparr>"
      by auto
    with step False show ?thesis by simp
  qed
qed

lemma found_iff: "found r s \<longleftrightarrow> re_search r s \<noteq> None"
  by (simp add: found_def split: option.splits)

lemma found_occurs: "found r s \<longleftrightarrow> occurs r s"
  using re_search_None_iff [of r s] by (simp add: found_iff)

lemma parse_dependency_section_total: "\<exists>r. parse_dependency_section log_content = Inr r"
proof -
  have "\<exists>r. (case parse_dependencies s of Inl e \<Rightarrow> Inl e | Inr d \<Rightarrow> Inr (Report d)) = Inr r"
    for s using parse_dependencies_total [of s] by auto
  then show ?thesis
    by (auto simp: parse_dependency_section_def Let_def split: option.splits)
qed

section \<open>The line cleaner\<close>

lemma strip_strip: "strip (strip s) = strip s"
proof -
  let ?d = "dropWhile isspace s"
  let ?t = "rev (dropWhile isspace (rev ?d))"
  have d: "?d = ?t @ rev (takeWhile isspace (rev ?d))"
    by (metis rev_append rev_rev_ident takeWhile_dropWhile_id)
  have "?t = [] \<or> \<not> isspace (hd ?t)"
  proof (cases "?t = []")
    case False
    then have "?d \<noteq> []" by (metis dropWhile.simps(1) rev.simps(1))
    then have "\<not> isspace (hd ?d)" by (rule hd_dropWhile)
    moreover from d False have "hd ?d = hd ?t" by (metis hd_append2)
    ultimately show ?thesis by simp
  qed simp
  then have "dropWhile isspace ?t = ?t" by (simp only: dropWhile_eq_self_iff)
  then show ?thesis by (simp add: strip_def)
qed

lemma sub_from_id: "search_from r p a = None \<Longrightarrow> sub_from r p a = a"
proof (induction a arbitrary: p)
  case Nil
  then show ?case
    by (subst sub_from.simps, subst (asm) search_from.simps) (auto split: list.splits)
next
  case (Cons c cs)
  from Cons.prems have "ms r (p, c # cs, Map.empty) = []" "search_from r (Suc p) cs = None"
    by (subst (asm) search_from.simps; auto split: list.splits)+
  with Cons.IH [of "Suc p"] show ?case
    by (subst sub_from.simps) simp
qed

lemma re_sub_id: "\<not> found r s \<Longrightarrow> re_sub r s = s"
  by (simp add: found_iff re_sub_def re_search_def sub_from_id)

lemma reset_in_ansi: "occurs reset_re s \<Longrightarrow> occurs ansi_re s"
  unfolding occurs_def reset_re_def ansi_re_def
  apply (elim exE conjE)
  subgoal for pre w post
    apply (rule exI [of _ pre], rule exI [of _ w], rule exI [of _ post])
    apply simp
    apply (rule exI [of _ "[]"])
    apply (simp add: isalpha_ascii_def)
    done
  done

lemma clear_in_ansi: "occurs clear_re s \<Longrightarrow> occurs ansi_re s"
  unfolding occurs_def clear_re_def ansi_re_def
  apply (elim exE conjE)
  subgoal for pre w post
    apply (rule exI [of _ pre], rule exI [of _ w], rule exI [of _ post])
    apply simp
    apply (rule exI [of _ "[]"])
    apply (simp add: isalpha_ascii_def)
    done
  done

lemma ABCD_alpha: "c \<in> set ''ABCD'' \<Longrightarrow> isalpha_ascii c"
proof -
  assume "c \<in> set ''ABCD''"
  then consider "c = CHR ''A''" | "c = CHR ''B''" | "c = CHR ''C''" | "c = CHR ''D''" by auto
  then show ?thesis by cases (simp_all add: isalpha_ascii_def)
qed

lemma cursor_in_ansi: "occurs cursor_re s \<Longrightarrow> occurs ansi_re s"
proof -
  assume "occurs cursor_re s"
  then obtain pre w post where w: "s = pre @ w @ post" "rmatch cursor_re (length pre) w post"
    by (auto simp: occurs_def)
  from w(2) obtain u c where u: "w = ESC # ''['' @ u @ [c]" "list_all isdigit u" "c \<in> set ''ABCD''"
    unfolding cursor_re_def by auto
  from u(2) have "list_all (\<lambda>c. isdigit c \<or> c = CHR '';'') u" by (simp add: list_all_iff)
  with u(1) ABCD_alpha [OF u(3)] have "rmatch ansi_re (length pre) w post"
    unfolding ansi_re_def by (simp, intro exI [of _ u] exI [of _ "[c]"], simp)
  with w(1) show ?thesis unfolding occurs_def by blast
qed

lemma clean_line_fixed:
  assumes "strip t = t" "\<not> found ts_prefix_re t" "\<not> found ansi_re t" "\<not> found bullet_re t"
  shows "clean_line t = t"
proof -
  from assms(3) have "\<not> occurs ansi_re t" by (simp add: found_occurs)
  with reset_in_ansi [of t] clear_in_ansi [of t] cursor_in_ansi [of t]
  have "\<not> occurs reset_re t" "\<not> occurs clear_re t" "\<not> occurs cursor_re t" by blast+
  then have "\<not> found reset_re t" "\<not> found clear_re t" "\<not> found cursor_re t"
    by (simp_all add: found_occurs)
  with assms have "re_sub ts_prefix_re t = t" "re_sub ansi_re t = t" "re_sub reset_re t = t"
    "re_sub clear_re t = t" "re_sub cursor_re t = t" "re_sub bullet_re t = t"
    by (simp_all only: re_sub_id not_False_eq_True)
  with assms(1) show ?thesis by (simp only: clean_line_def Let_def)
qed

lemma strip_length: "length (strip s) \<le> length s"
proof -
  have "length (strip s) \<le> length (dropWhile isspace s)"
    by (simp add: strip_def) (metis length_dropWhile_le length_rev)
  also have "\<dots> \<le> length s" by (rule length_dropWhile_le)
  finally show ?thesis .
qed

lemma ms_head_splits:
  assumes "ms r (p, a, g) = (q, a', g') # rest"
  shows "\<exists>w. a = w @ a' \<and> q = p + length w \<and> rmatch r p w a'"
proof -
  from assms have "\<exists>g'. (q, a', g') \<in> set (ms r (p, a, g))"
    by (intro exI [of _ g']) simp
  then show ?thesis unfolding ms_iff .
qed

lemma sub_from_length: "length (sub_from r p a) \<le> length a"
proof (induction "length a" arbitrary: p a rule: less_induct)
  case less
  have step: "length (case a of [] \<Rightarrow> [] | c # cs \<Rightarrow> c # sub_from r (Suc p) cs) \<le> length a"
  proof (cases a)
    case (Cons c cs)
    with less [of cs "Suc p"] show ?thesis by simp
  qed simp
  show ?case
  proof (cases "ms r (p, a, Map.empty)")
    case Nil
    with step show ?thesis by (subst sub_from.simps) simp
  next
    case (Cons x rest)
    obtain q a' g where x: "x = (q, a', g)" by (cases x)
    from ms_head_splits [OF Cons [unfolded x]] obtain w where
      w: "a = w @ a'" "q = p + length w" by blast
    show ?thesis
    proof (cases "p < q")
      case True
      with w have "length a' < length a" by simp
      from less [OF this, of q] this Cons x True show ?thesis
        by (subst sub_from.simps) simp
    next
      case False
      with step Cons x show ?thesis by (subst sub_from.simps) simp
    qed
  qed
qed

lemma sub_from_shorter:
  assumes ne: "\<And>p w a. rmatch r p w a \<Longrightarrow> w \<noteq> []"
  shows "search_from r p a \<noteq> None \<Longrightarrow> length (sub_from r p a) < length a"
proof (induction a arbitrary: p)
  case Nil
  then obtain x rest where ms: "ms r (p, [], Map.empty) = x # rest"
    by (subst (asm) search_from.simps) (auto split: list.splits)
  obtain q a' g where x: "x = (q, a', g)" by (cases x)
  from ms_head_splits [OF ms [unfolded x]] obtain w where
    w: "[] = w @ a'" "rmatch r p w a'" by blast
  from ne [OF w(2)] w(1) show ?case by simp
next
  case (Cons c cs)
  show ?case
  proof (cases "ms r (p, c # cs, Map.empty)")
    case Nil
    with Cons.prems have "search_from r (Suc p) cs \<noteq> None"
      by (subst (asm) search_from.simps) simp
    from Cons.IH [OF this] Nil show ?thesis
      by (subst sub_from.simps) simp
  next
    case (Cons x rest)
    obtain q a' g where x: "x = (q, a', g)" by (cases x)
    from ms_head_splits [OF Cons [unfolded x]] obtain w where
      w: "c # cs = w @ a'" "q = p + length w" "rmatch r p w a'" by blast
    from ne [OF w(3)] have "0 < length w" by simp
    moreover from w(1) have "length (c # cs) = length w + length a'"
      by (metis length_append)
    ultimately have "p < q" "length a' < length (c # cs)" using w(2) by simp_all
    moreover have "length (sub_from r q a') \<le> length a'" by (rule sub_from_length)
    ultimately show ?thesis using Cons x
      by (subst sub_from.simps) simp
  qed
qed

lemma re_sub_length: "length (re_sub r s) \<le> length s"
  by (simp add: re_sub_def sub_from_length)

lemma re_sub_shorter:
  assumes "\<And>p w a. rmatch r p w a \<Longrightarrow> w \<noteq> []" "found r s"
  shows "length (re_sub r s) < length s"
  using sub_from_shorter [of r 0 s] assms by (simp add: re_sub_def found_iff re_search_def)

lemma rmatch_minlen: "rmatch r p w a \<Longrightarrow> minlen r \<le> length w"
proof (induction r arbitrary: p w a)
  case (Plus P)
  then show ?case by (cases w) auto
next
  case (Cat r1 r2)
  from Cat.prems obtain u v where uv: "w = u @ v" "rmatch r1 p u (v @ a)"
    "rmatch r2 (p + length u) v a" by auto
  from Cat.IH(1) [OF uv(2)] Cat.IH(2) [OF uv(3)] uv(1) show ?case by simp
qed auto

lemma ts_prefix_re_nonempty:
  assumes "rmatch ts_prefix_re p w a"
  shows "w \<noteq> []"
proof -
  have "0 < minlen ts_prefix_re" by (simp add: ts_prefix_re_def timestamp_def)
  with rmatch_minlen [OF assms] show ?thesis by auto
qed

lemma ansi_re_nonempty:
  assumes "rmatch ansi_re p w a"
  shows "w \<noteq> []"
proof -
  have "0 < minlen ansi_re" by (simp add: ansi_re_def)
  with rmatch_minlen [OF assms] show ?thesis by auto
qed

lemma bullet_re_nonempty:
  assumes "rmatch bullet_re p w a"
  shows "w \<noteq> []"
proof -
  have "0 < minlen bullet_re" by (simp add: bullet_re_def)
  with rmatch_minlen [OF assms] show ?thesis by auto
qed

lemma clean_line_changes:
  assumes st: "strip t = t"
    and f: "found ts_prefix_re t \<or> found ansi_re t \<or> found bullet_re t"
  shows "clean_line t \<noteq> t"
proof
  assume same: "clean_line t = t"
  let ?x1 = "re_sub ts_prefix_re t"
  let ?x2 = "re_sub ansi_re ?x1"
  let ?x3 = "re_sub reset_re ?x2"
  let ?x4 = "re_sub clear_re ?x3"
  let ?x5 = "re_sub cursor_re ?x4"
  let ?x6 = "re_sub bullet_re ?x5"
  have c: "clean_line t = strip ?x6" by (simp add: clean_line_def Let_def st)
  have chain: "length (strip ?x6) \<le> length ?x6" "length ?x6 \<le> length ?x5"
    "length ?x5 \<le> length ?x4" "length ?x4 \<le> length ?x3" "length ?x3 \<le> length ?x2"
    "length ?x2 \<le> length ?x1" "length ?x1 \<le> length t"
    by (rule strip_length re_sub_length)+
  from same c have tot: "length (strip ?x6) = length t" by simp
  have 1: "\<not> found ts_prefix_re t"
  proof
    assume "found ts_prefix_re t"
    with re_sub_shorter [of ts_prefix_re t] ts_prefix_re_nonempty
    have "length ?x1 < length t" by blast
    with chain tot show False by linarith
  qed
  then have x1: "?x1 = t" by (rule re_sub_id)
  have 2: "\<not> found ansi_re t"
  proof
    assume "found ansi_re t"
    with re_sub_shorter [of ansi_re t] ansi_re_nonempty
    have "length (re_sub ansi_re t) < length t" by blast
    with chain tot x1 show False by simp
  qed
  then have "\<not> occurs ansi_re t" by (simp add: found_occurs)
  with reset_in_ansi [of t] clear_in_ansi [of t] cursor_in_ansi [of t]
  have "\<not> occurs reset_re t" "\<not> occurs clear_re t" "\<not> occurs cursor_re t" by blast+
  then have "\<not> found reset_re t" "\<not> found clear_re t" "\<not> found cursor_re t"
    by (simp_all add: found_occurs)
  with 2 x1 have x5: "?x5 = t" by (simp add: re_sub_id)
  from f 1 2 have "found bullet_re t" by blast
  with re_sub_shorter [of bullet_re t] bullet_re_nonempty
  have "length (re_sub bullet_re t) < length t" by blast
  with chain(1) tot x5 show False by simp
qed

section \<open>The first occurrence of a pattern\<close>

lemma search_from_Some:
  assumes "search_from r p a = Some m"
  shows "\<exists>u v q a' g rest. a = u @ v \<and> m_start m = p + length u \<and>
           ms r (p + length u, v, Map.empty) = (q, a', g) # rest \<and>
           m_end m = q \<and> m_groups m = g \<and>
           (\<forall>u' v'. a = u' @ v' \<and> length u' < length u \<longrightarrow>
              ms r (p + length u', v', Map.empty) = [])"
  using assms
proof (induction a arbitrary: p)
  case Nil
  from Nil.prems obtain q a' g rest where
    "ms r (p, [], Map.empty) = (q, a', g) # rest" "m = \<lparr>m_start = p, m_end = q, m_groups = g\<rparr>"
    by (subst (asm) search_from.simps) (auto split: list.splits)
  then show ?case by (intro exI [of _ "[]"]) auto
next
  case (Cons c cs)
  show ?case
  proof (cases "ms r (p, c # cs, Map.empty)")
    case Nil
    with Cons.prems have "search_from r (Suc p) cs = Some m"
      by (subst (asm) search_from.simps) simp
    from Cons.IH [OF this] obtain u v q a' g rest where
      u: "cs = u @ v" "m_start m = Suc p + length u"
      "ms r (Suc p + length u, v, Map.empty) = (q, a', g) # rest"
      "m_end m = q" "m_groups m = g"
      "\<forall>u' v'. cs = u' @ v' \<and> length u' < length u \<longrightarrow>
              ms r (Suc p + length u', v', Map.empty) = []"
      by blast
    have "ms r (p + length u', v', Map.empty) = []"
      if "c # cs = u' @ v'" "length u' < length (c # u)" for u' v'
    proof (cases u')
      case Nil
      with that \<open>ms r (p, c # cs, Map.empty) = []\<close> show ?thesis by simp
    next
      case (Cons d u'')
      with that u(6) show ?thesis by auto
    qed
    with u show ?thesis
      by (intro exI [of _ "c # u"] exI [of _ v] exI [of _ q] exI [of _ a'] exI [of _ g]
          exI [of _ rest]) auto
  next
    case (Cons x rest)
    obtain q a' g where x: "x = (q, a', g)" by (cases x)
    with Cons Cons.prems have "m = \<lparr>m_start = p, m_end = q, m_groups = g\<rparr>"
      by (subst (asm) search_from.simps) simp
    with Cons x show ?thesis
      by (intro exI [of _ "[]"] exI [of _ "c # cs"] exI [of _ q] exI [of _ a'] exI [of _ g]
          exI [of _ rest]) auto
  qed
qed

lemma pfree_Str: "pfree (Str s)"
  by (simp add: pfree_def)

lemma pfree_Cat_Str: "pfree r \<Longrightarrow> pfree (Cat (Str s) r)"
  unfolding pfree_def by auto

lemma pfree_Cat_Rep: "pfree r \<Longrightarrow> pfree (Cat (Rep n P) r)"
  unfolding pfree_def
proof (intro allI impI)
  fix p w a w' a'
  assume r: "\<forall>p w a w' a'. rmatch r p w a \<longrightarrow> rmatch r p w' a' \<longrightarrow> w @ a = w' @ a' \<longrightarrow> w = w'"
    and 1: "rmatch (Cat (Rep n P) r) p w a" and 2: "rmatch (Cat (Rep n P) r) p w' a'"
    and eq: "w @ a = w' @ a'"
  from 1 obtain u v where u: "w = u @ v" "length u = n" "rmatch r (p + n) v a" by auto
  from 2 obtain u' v' where u': "w' = u' @ v'" "length u' = n" "rmatch r (p + n) v' a'" by auto
  from eq u u' have "u = u'" "v @ a = v' @ a'" by auto
  with r u u' show "w = w'" by blast
qed

lemma run_then_other:
  assumes "u @ c # x = u' @ c # x'" "list_all P u" "list_all P u'" "\<not> P c"
  shows "u = u' \<and> x = x'"
proof -
  from assms(2,4) have "takeWhile P (u @ c # x) = u"
    by (simp add: list_all_iff)
  moreover from assms(3,4) have "takeWhile P (u' @ c # x') = u'"
    by (simp add: list_all_iff)
  ultimately have "u = u'" using assms(1) by simp
  with assms(1) show ?thesis by simp
qed

lemma pfree_Cat_Plus: "\<not> P c \<Longrightarrow> pfree r \<Longrightarrow> pfree (Cat (Plus P) (Cat (Str (c # s)) r))"
  unfolding pfree_def
proof (intro allI impI)
  fix p w a w' a'
  assume c: "\<not> P c"
    and r: "\<forall>p w a w' a'. rmatch r p w a \<longrightarrow> rmatch r p w' a' \<longrightarrow> w @ a = w' @ a' \<longrightarrow> w = w'"
    and 1: "rmatch (Cat (Plus P) (Cat (Str (c # s)) r)) p w a"
    and 2: "rmatch (Cat (Plus P) (Cat (Str (c # s)) r)) p w' a'"
    and eq: "w @ a = w' @ a'"
  from 1 obtain u v where u: "w = u @ (c # s) @ v" "list_all P u"
    "rmatch r (p + length u + length (c # s)) v a" by auto
  from 2 obtain u' v' where u': "w' = u' @ (c # s) @ v'" "list_all P u'"
    "rmatch r (p + length u' + length (c # s)) v' a'" by auto
  from eq u(1) u'(1) have "u @ c # (s @ v @ a) = u' @ c # (s @ v' @ a')" by simp
  from run_then_other [OF this u(2) u'(2) c] have "u = u'" "v @ a = v' @ a'" by auto
  with r u u' show "w = w'" by blast
qed

lemma pfree_Cat_Star: "\<not> P c \<Longrightarrow> pfree r \<Longrightarrow> pfree (Cat (Star P) (Cat (Str (c # s)) r))"
  unfolding pfree_def
proof (intro allI impI)
  fix p w a w' a'
  assume c: "\<not> P c"
    and r: "\<forall>p w a w' a'. rmatch r p w a \<longrightarrow> rmatch r p w' a' \<longrightarrow> w @ a = w' @ a' \<longrightarrow> w = w'"
    and 1: "rmatch (Cat (Star P) (Cat (Str (c # s)) r)) p w a"
    and 2: "rmatch (Cat (Star P) (Cat (Str (c # s)) r)) p w' a'"
    and eq: "w @ a = w' @ a'"
  from 1 obtain u v where u: "w = u @ (c # s) @ v" "list_all P u"
    "rmatch r (p + length u + length (c # s)) v a" by auto
  from 2 obtain u' v' where u': "w' = u' @ (c # s) @ v'" "list_all P u'"
    "rmatch r (p + length u' + length (c # s)) v' a'" by auto
  from eq u(1) u'(1) have "u @ c # (s @ v @ a) = u' @ c # (s @ v' @ a')" by simp
  from run_then_other [OF this u(2) u'(2) c] have "u = u'" "v @ a = v' @ a'" by auto
  with r u u' show "w = w'" by blast
qed

lemma pfree_start_pattern: "pfree start_pattern"
  unfolding start_pattern_def timestamp_def
  apply simp
  apply (intro pfree_Cat_Plus pfree_Cat_Star pfree_Cat_Rep pfree_Cat_Str pfree_Str)
  apply (simp_all add: isdigit_def isspace_def ESC_def)
  done

lemma first_occurrence_found:
  assumes s: "s = pre @ w @ post" and w: "rmatch r (length pre) w post"
    and first: "\<forall>pre' w' post'. s = pre' @ w' @ post' \<and> rmatch r (length pre') w' post' \<longrightarrow>
                  length pre \<le> length pre'"
    and pf: "pfree r"
  shows "\<exists>m. re_search r s = Some m \<and> m_start m = length pre \<and> m_end m = length pre + length w"
proof -
  from s w have "occurs r s" unfolding occurs_def by blast
  then obtain m where m: "re_search r s = Some m"
    using re_search_None_iff [of r s] by auto
  from search_from_Some [OF m [unfolded re_search_def]] obtain u v q a' g rest where
    u: "s = u @ v" "m_start m = length u" "ms r (length u, v, Map.empty) = (q, a', g) # rest"
    "m_end m = q"
    "\<forall>u' v'. s = u' @ v' \<and> length u' < length u \<longrightarrow> ms r (length u', v', Map.empty) = []"
    by auto
  from u(3) have "(q, a', g) \<in> set (ms r (length u, v, Map.empty))" by simp
  then have "\<exists>g'. (q, a', g') \<in> set (ms r (length u, v, Map.empty))" by blast
  then obtain w' where w': "v = w' @ a'" "q = length u + length w'" "rmatch r (length u) w' a'"
    unfolding ms_iff by blast
  with u(1) first have le: "length pre \<le> length u" by blast
  from w have "ms r (length pre, w @ post, Map.empty) \<noteq> []"
    unfolding ms_empty_iff by blast
  with u(5) s have "\<not> length pre < length u" by blast
  with le have len: "length pre = length u" by simp
  with s u(1) have "pre = u" "w @ post = v" by auto
  with w' w pf have "w = w'" unfolding pfree_def by blast
  with m u w' len show ?thesis by simp
qed

lemma re_search_leftmost:
  assumes "re_search r s = Some m" "s = pre @ w @ post" "rmatch r (length pre) w post"
  shows "m_start m \<le> length pre"
proof -
  from search_from_Some [OF assms(1) [unfolded re_search_def]] obtain u v where
    u: "s = u @ v" "m_start m = length u"
    "\<forall>u' v'. s = u' @ v' \<and> length u' < length u \<longrightarrow> ms r (length u', v', Map.empty) = []"
    by auto
  from assms(3) have "ms r (length pre, w @ post, Map.empty) \<noteq> []"
    unfolding ms_empty_iff by blast
  with u(3) assms(2) have "\<not> length pre < length u" by blast
  with u(2) show ?thesis by simp
qed

lemma start_boundary:
  assumes "first_occurrence start_pattern pre w post"
  shows "\<exists>m. re_search start_pattern (pre @ w @ post) = Some m \<and> m_start m = length pre \<and>
           m_end m = length pre + length w"
  using assms first_occurrence_found [of "pre @ w @ post" pre w post start_pattern]
    pfree_start_pattern
  unfolding first_occurrence_def by blast

lemma opening_banner_matches:
  "rmatch start_pattern (length build_output) opening_banner open_section"
proof -
  have "case ms start_pattern (length build_output, opening_banner @ open_section, Map.empty) of
          [] \<Rightarrow> False
        | (q, a, g) # rest \<Rightarrow> q = length build_output + length opening_banner \<and> a = open_section"
    by code_simp
  then obtain g rest where
    "ms start_pattern (length build_output, opening_banner @ open_section, Map.empty) =
       (length build_output + length opening_banner, open_section, g) # rest"
    by (auto split: list.splits)
  then have "\<exists>g'. (length build_output + length opening_banner, open_section, g')
      \<in> set (ms start_pattern (length build_output, opening_banner @ open_section, Map.empty))"
    by (intro exI [of _ g]) simp
  then show ?thesis unfolding ms_iff by auto
qed

lemma opening_banner_first:
  "first_occurrence start_pattern build_output opening_banner open_section"
  unfolding first_occurrence_def
proof (intro conjI allI impI)
  show "rmatch start_pattern (length build_output) opening_banner open_section"
    by (rule opening_banner_matches)
next
  fix pre' w' post'
  assume a: "build_output @ opening_banner @ open_section = pre' @ w' @ post' \<and>
       rmatch start_pattern (length pre') w' post'"
  have "case re_search start_pattern (build_output @ opening_banner @ open_section) of
          None \<Rightarrow> False | Some m \<Rightarrow> m_start m = length build_output"
    by code_simp
  then obtain m where m: "re_search start_pattern (build_output @ opening_banner @ open_section) = Some m"
    "m_start m = length build_output"
    by (auto split: option.splits)
  from re_search_leftmost [OF m(1), of pre' w' post'] a m(2)
  show "length build_output \<le> length pre'" by simp
qed

section \<open>The head of the list of matches\<close>

lemma star_hd:
  "list_all P w \<Longrightarrow> a = [] \<or> \<not> P (hd a) \<Longrightarrow>
   \<exists>rest. star P p (w @ a) g = (p + length w, a, g) # rest"
proof (induction w arbitrary: p)
  case Nil
  then show ?case by (cases a) auto
next
  case (Cons d w)
  from Cons.IH [of "Suc p"] Cons.prems obtain rest where
    "star P (Suc p) (w @ a) g = (Suc p + length w, a, g) # rest" by auto
  with Cons.prems show ?case by simp
qed

lemma ms_Star_hd:
  "list_all P w \<Longrightarrow> a = [] \<or> \<not> P (hd a) \<Longrightarrow>
   \<exists>rest. ms (Star P) (p, w @ a, g) = (p + length w, a, g) # rest"
  using star_hd [of P w a p g] by simp

lemma ms_Plus_hd:
  assumes "w \<noteq> []" "list_all P w" "a = [] \<or> \<not> P (hd a)"
  shows "\<exists>rest. ms (Plus P) (p, w @ a, g) = (p + length w, a, g) # rest"
proof -
  from assms(1) obtain d w' where w: "w = d # w'" by (cases w) auto
  with assms star_hd [of P w' a "Suc p" g] show ?thesis by auto
qed

lemma ms_Cat_hd:
  "ms r1 x = y # ys \<Longrightarrow> ms r2 y = z # zs \<Longrightarrow> \<exists>rest. ms (Cat r1 r2) x = z # rest"
  by simp

lemma ms_Grp_hd:
  "ms r (p, a, g) = (q, a', g') # rest \<Longrightarrow>
   \<exists>rest'. ms (Grp n r) (p, a, g) = (q, a', g'(n \<mapsto> take (q - p) a)) # rest'"
  by simp

lemma ms_Str_hd: "ms (Str s) (p, s @ a, g) = [(p + length s, a, g)]"
  by (simp add: starts_with_iff)

lemma search_from_hit:
  "ms r (p, a, Map.empty) = (q, a', g) # rest \<Longrightarrow>
   search_from r p a = Some \<lparr>m_start = p, m_end = q, m_groups = g\<rparr>"
  by (subst search_from.simps) simp

lemma search_from_skip:
  "(\<forall>u v. pre = u @ v \<and> v \<noteq> [] \<longrightarrow> ms r (p + length u, v @ rest, Map.empty) = []) \<Longrightarrow>
   search_from r p (pre @ rest) = search_from r (p + length pre) rest"
proof (induction pre arbitrary: p)
  case Nil
  then show ?case by simp
next
  case (Cons c pre)
  from Cons.prems [rule_format, of "[]" "c # pre"]
  have 1: "ms r (p, (c # pre) @ rest, Map.empty) = []" by simp
  have "\<forall>u v. pre = u @ v \<and> v \<noteq> [] \<longrightarrow> ms r (Suc p + length u, v @ rest, Map.empty) = []"
  proof (intro allI impI)
    fix u v assume "pre = u @ v \<and> v \<noteq> []"
    with Cons.prems [rule_format, of "c # u" v]
    show "ms r (Suc p + length u, v @ rest, Map.empty) = []" by simp
  qed
  from Cons.IH [OF this] 1 show ?case
    by (subst search_from.simps) simp
qed

lemma split_last_run:
  assumes "u @ v = u' @ v'" "list_all P v" "list_all P v'"
    and "u \<noteq> [] \<Longrightarrow> \<not> P (last u)" "u' \<noteq> [] \<Longrightarrow> \<not> P (last u')"
  shows "u = u' \<and> v = v'"
proof -
  have run: "takeWhile P (rev y @ rev x) = rev y"
    if "list_all P y" "x \<noteq> [] \<Longrightarrow> \<not> P (last x)" for x y
  proof (cases x rule: rev_cases)
    case Nil
    with that show ?thesis by (simp add: list_all_iff)
  next
    case (snoc x' c)
    have "takeWhile P (rev y @ c # rev x') = rev y @ takeWhile P (c # rev x')"
      by (rule takeWhile_append2) (use that(1) in \<open>simp add: list_all_iff\<close>)
    with snoc that(2) show ?thesis by simp
  qed
  from assms(1) have "rev v @ rev u = rev v' @ rev u'" by (metis rev_append)
  with run [OF assms(2,4)] run [OF assms(3,5)] have "rev v = rev v'" by simp
  with assms(1) show ?thesis by simp
qed

lemma isspace_NL: "isspace NL"
  by (simp add: isspace_def NL_def)

lemma found_re_shape:
  assumes "rmatch found_re p w a"
  shows "\<exists>X W Y W'. w = X @ W @ Y @ W' \<and> X \<noteq> [] \<and> list_all nonspace X \<and> W \<noteq> [] \<and>
           list_all isspace W \<and> Y \<noteq> [] \<and> list_all nonspace Y \<and> list_all isspace (W' @ a)"
proof -
  from assms obtain X W Y W' where
    "w = X @ W @ Y @ W'" "X \<noteq> []" "list_all nonspace X" "W \<noteq> []" "list_all isspace W"
    "Y \<noteq> []" "list_all nonspace Y" "list_all isspace W'" "a = [] \<or> a = [NL]"
    unfolding found_re_def by auto
  then show ?thesis
    by (intro exI [of _ X] exI [of _ W] exI [of _ Y] exI [of _ W']) (auto simp: isspace_NL)
qed

lemma found_re_no_early_match:
  assumes v: "v \<noteq> []" "isspace (last v)"
    and t1: "t1 \<noteq> []" "list_all nonspace t1"
    and ws: "ws \<noteq> []" "list_all isspace ws"
    and t2: "t2 \<noteq> []" "list_all nonspace t2"
  shows "ms found_re (p, v @ t1 @ ws @ t2, g) = []"
proof (rule ccontr)
  assume "ms found_re (p, v @ t1 @ ws @ t2, g) \<noteq> []"
  then obtain w a where wa: "v @ t1 @ ws @ t2 = w @ a" "rmatch found_re p w a"
    unfolding ms_empty_iff by blast
  from found_re_shape [OF wa(2)] obtain X W Y W' where
    s: "w = X @ W @ Y @ W'" "X \<noteq> []" "list_all nonspace X" "W \<noteq> []" "list_all isspace W"
    "Y \<noteq> []" "list_all nonspace Y" "list_all isspace (W' @ a)" by blast
  have ns_last: "\<not> isspace (last x)" if "x \<noteq> []" "list_all nonspace x" for x
    using that by (cases x rule: rev_cases) (auto simp: nonspace_def)
  have sp_last: "\<not> nonspace (last x)" if "x \<noteq> []" "list_all isspace x" for x
    using that by (cases x rule: rev_cases) (auto simp: nonspace_def)
  from wa(1) s(1) have "(v @ t1 @ ws @ t2) @ [] = (X @ W @ Y) @ (W' @ a)" by simp
  from split_last_run [OF this, of isspace] s(6,8) t2(1) ns_last [OF t2] ns_last [OF s(6,7)]
  have 1: "v @ t1 @ ws @ t2 = X @ W @ Y" by simp
  then have "(v @ t1 @ ws) @ t2 = (X @ W) @ Y" by simp
  from split_last_run [OF this, of nonspace] t2(2) s(7) ws(1) s(4) sp_last [OF ws] sp_last [OF s(4,5)]
  have 2: "v @ t1 @ ws = X @ W" by simp
  then have "(v @ t1) @ ws = X @ W" by simp
  from split_last_run [OF this, of isspace] ws(2) s(5) t1(1) s(2) ns_last [OF t1] ns_last [OF s(2,3)]
  have 3: "v @ t1 = X" by simp
  from v(1) have "last v \<in> set v" by simp
  with 3 have "last v \<in> set X" by auto
  with s(3) have "nonspace (last v)" by (simp add: list_all_iff)
  with v(2) show False by (simp add: nonspace_def)
qed

lemma found_re_match_here:
  assumes t1: "t1 \<noteq> []" "list_all nonspace t1"
    and ws: "ws \<noteq> []" "list_all isspace ws"
    and t2: "t2 \<noteq> []" "list_all nonspace t2"
  shows "\<exists>q a' g rest. ms found_re (p, t1 @ ws @ t2, Map.empty) = (q, a', g) # rest \<and>
           g 1 = Some t1 \<and> g 2 = Some t2"
proof -
  from ws have hd_ws: "\<not> nonspace (hd (ws @ t2))" by (cases ws) (auto simp: nonspace_def)
  from t2 have hd_t2: "\<not> isspace (hd t2)" by (cases t2) (auto simp: nonspace_def)
  from ms_Plus_hd [OF t1, of "ws @ t2" p Map.empty] hd_ws ws(1) obtain r1 where
    "ms (Plus nonspace) (p, t1 @ ws @ t2, Map.empty) = (p + length t1, ws @ t2, Map.empty) # r1"
    by auto
  from ms_Grp_hd [OF this, of 1] obtain r1' where
    1: "ms (Grp 1 (Plus nonspace)) (p, t1 @ ws @ t2, Map.empty) =
          (p + length t1, ws @ t2, [1 \<mapsto> t1]) # r1'" by auto
  from ms_Plus_hd [OF ws, of t2 "p + length t1" "[1 \<mapsto> t1]"] hd_t2 t2(1) obtain r2 where
    2: "ms (Plus isspace) (p + length t1, ws @ t2, [1 \<mapsto> t1]) =
          (p + length t1 + length ws, t2, [1 \<mapsto> t1]) # r2" by auto
  from ms_Plus_hd [OF t2, of "[]" "p + length t1 + length ws" "[1 \<mapsto> t1]"] obtain r3 where
    "ms (Plus nonspace) (p + length t1 + length ws, t2, [1 \<mapsto> t1]) =
       (p + length t1 + length ws + length t2, [], [1 \<mapsto> t1]) # r3" by auto
  from ms_Grp_hd [OF this, of 2] obtain r3' where
    3: "ms (Grp 2 (Plus nonspace)) (p + length t1 + length ws, t2, [1 \<mapsto> t1]) =
       (p + length t1 + length ws + length t2, [], [1 \<mapsto> t1, 2 \<mapsto> t2]) # r3'" by auto
  let ?r4 = "Cat (Star isspace) (Cat Eol (Str []))"
  let ?r3 = "Cat (Grp 2 (Plus nonspace)) ?r4"
  let ?r2 = "Cat (Plus isspace) ?r3"
  have 4: "ms ?r4 (p + length t1 + length ws + length t2, [], [1 \<mapsto> t1, 2 \<mapsto> t2]) =
       (p + length t1 + length ws + length t2, [], [1 \<mapsto> t1, 2 \<mapsto> t2]) # []" by simp
  from ms_Cat_hd [OF 3 4] obtain r4 where
    "ms ?r3 (p + length t1 + length ws, t2, [1 \<mapsto> t1]) =
       (p + length t1 + length ws + length t2, [], [1 \<mapsto> t1, 2 \<mapsto> t2]) # r4" by blast
  from ms_Cat_hd [OF 2 this] obtain r5 where
    "ms ?r2 (p + length t1, ws @ t2, [1 \<mapsto> t1]) =
       (p + length t1 + length ws + length t2, [], [1 \<mapsto> t1, 2 \<mapsto> t2]) # r5" by blast
  from ms_Cat_hd [OF 1 this] obtain r6 where
    "ms found_re (p, t1 @ ws @ t2, Map.empty) =
       (p + length t1 + length ws + length t2, [], [1 \<mapsto> t1, 2 \<mapsto> t2]) # r6"
    unfolding found_re_def seq.simps by blast
  then show ?thesis by auto
qed

lemma found_re_last_two:
  assumes pre: "pre = [] \<or> isspace (last pre)"
    and t1: "t1 \<noteq> []" "list_all nonspace t1"
    and ws: "ws \<noteq> []" "list_all isspace ws"
    and t2: "t2 \<noteq> []" "list_all nonspace t2"
  shows "\<exists>m. re_search found_re (pre @ t1 @ ws @ t2) = Some m \<and>
           m_groups m 1 = Some t1 \<and> m_groups m 2 = Some t2"
proof -
  have "\<forall>u v. pre = u @ v \<and> v \<noteq> [] \<longrightarrow>
          ms found_re (0 + length u, v @ t1 @ ws @ t2, Map.empty) = []"
  proof (intro allI impI)
    fix u v assume uv: "pre = u @ v \<and> v \<noteq> []"
    with pre have "isspace (last v)" by auto
    with uv found_re_no_early_match [OF _ _ t1 ws t2]
    show "ms found_re (0 + length u, v @ t1 @ ws @ t2, Map.empty) = []" by blast
  qed
  from search_from_skip [OF this]
  have "re_search found_re (pre @ t1 @ ws @ t2) =
          search_from found_re (length pre) (t1 @ ws @ t2)"
    by (simp add: re_search_def)
  moreover from found_re_match_here [OF t1 ws t2, of "length pre"] obtain q a' g rest where
    "ms found_re (length pre, t1 @ ws @ t2, Map.empty) = (q, a', g) # rest"
    "g 1 = Some t1" "g 2 = Some t2" by blast
  ultimately show ?thesis using search_from_hit by fastforce
qed

lemma found_re_single_token:
  assumes "list_all nonspace c"
  shows "re_search found_re c = None"
proof -
  have "\<not> occurs found_re c"
  proof
    assume "occurs found_re c"
    then obtain pre w post where w: "c = pre @ w @ post" "rmatch found_re (length pre) w post"
      unfolding occurs_def by blast
    from found_re_shape [OF w(2)] obtain X W Y W' where
      "w = X @ W @ Y @ W'" "W \<noteq> []" "list_all isspace W" by blast
    with w(1) assms have "list_all nonspace W" by simp
    with \<open>W \<noteq> []\<close> \<open>list_all isspace W\<close> show False
      by (cases W) (auto simp: nonspace_def)
  qed
  then show ?thesis by (simp add: re_search_None_iff)
qed

section \<open>The tokens of a cleaned line\<close>

lemma strip_ends:
  assumes "strip s \<noteq> []"
  shows "\<not> isspace (hd (strip s)) \<and> \<not> isspace (last (strip s))"
proof -
  let ?d = "dropWhile isspace s"
  let ?t = "rev (dropWhile isspace (rev ?d))"
  have t: "strip s = ?t" by (simp add: strip_def)
  have d: "?d = ?t @ rev (takeWhile isspace (rev ?d))"
    by (metis rev_append rev_rev_ident takeWhile_dropWhile_id)
  from assms t have ne: "?t \<noteq> []" by simp
  then have "?d \<noteq> []" by (metis dropWhile.simps(1) rev.simps(1))
  then have "\<not> isspace (hd ?d)" by (rule hd_dropWhile)
  moreover from d ne have "hd ?d = hd ?t" by (metis hd_append2)
  ultimately have 1: "\<not> isspace (hd ?t)" by simp
  from ne have "dropWhile isspace (rev ?d) \<noteq> []" by simp
  then have "\<not> isspace (hd (dropWhile isspace (rev ?d)))" by (rule hd_dropWhile)
  with ne have 2: "\<not> isspace (last ?t)" by (simp add: last_rev)
  from 1 2 t show ?thesis by simp
qed

lemma last_run:
  "\<exists>front run. xs = front @ run \<and> list_all P run \<and> (front = [] \<or> \<not> P (last front)) \<and>
     (xs \<noteq> [] \<and> P (last xs) \<longrightarrow> run \<noteq> [])"
proof (intro exI conjI)
  let ?front = "rev (dropWhile P (rev xs))" and ?run = "rev (takeWhile P (rev xs))"
  show "xs = ?front @ ?run"
    by (metis rev_append rev_rev_ident takeWhile_dropWhile_id)
  show "list_all P ?run"
    by (simp add: list_all_iff) (metis set_takeWhileD)
  show "?front = [] \<or> \<not> P (last ?front)"
  proof (cases "dropWhile P (rev xs) = []")
    case False
    from hd_dropWhile [OF this] False show ?thesis by (simp add: last_rev)
  qed simp
  show "xs \<noteq> [] \<and> P (last xs) \<longrightarrow> ?run \<noteq> []"
    by (cases xs rule: rev_cases) auto
qed

lemma clean_line_cases:
  assumes "clean_line line \<noteq> []"
  shows "token (clean_line line) \<or> (\<exists>t1 t2. last_two_tokens (clean_line line) t1 t2)"
proof -
  let ?c = "clean_line line"
  obtain x where c: "?c = strip x" by (simp add: clean_line_def Let_def)
  with assms strip_ends [of x] have ends: "\<not> isspace (hd ?c)" "\<not> isspace (last ?c)" by auto
  from last_run [of ?c nonspace] assms ends(2) obtain r t2 where
    1: "?c = r @ t2" "list_all nonspace t2" "r = [] \<or> \<not> nonspace (last r)" "t2 \<noteq> []"
    by (auto simp: nonspace_def)
  show ?thesis
  proof (cases "r = []")
    case True
    with 1 show ?thesis by (simp add: token_def)
  next
    case False
    with 1(3) have "isspace (last r)" by (simp add: nonspace_def)
    with last_run [of r isspace] False obtain r' ws where
      2: "r = r' @ ws" "list_all isspace ws" "r' = [] \<or> \<not> isspace (last r')" "ws \<noteq> []"
      by auto
    have "r' \<noteq> []"
    proof
      assume "r' = []"
      with 1(1) 2 have "hd ?c = hd ws" "isspace (hd ws)" by (cases ws; simp)+
      with ends(1) show False by simp
    qed
    with 2(3) have "nonspace (last r')" by (simp add: nonspace_def)
    with last_run [of r' nonspace] \<open>r' \<noteq> []\<close> obtain pre t1 where
      3: "r' = pre @ t1" "list_all nonspace t1" "pre = [] \<or> \<not> nonspace (last pre)" "t1 \<noteq> []"
      by auto
    from 1 2 3 have "last_two_tokens ?c t1 t2"
      unfolding last_two_tokens_def token_def
      by (intro exI [of _ pre] exI [of _ ws]) (auto simp: nonspace_def)
    then show ?thesis by blast
  qed
qed

lemma parse_line_found_externally:
  assumes "current_section st = Some Found_externally" "is_data (clean_line line)"
  shows "parse_line line st =
     Inr (st\<lparr>version_match := Bound (re_search found_re (clean_line line)),
            dependencies :=
              append_entry Found_externally
                (make_entry (clean_line line) (re_search found_re (clean_line line)))
                (dependencies st)\<rparr>)"
  using assms by (simp add: parse_line_data probe_def record_entry_def)

lemma tok_nonspace: "list_all nonspace t \<Longrightarrow> tok cur (t @ rest) = tok (cur @ t) rest"
  by (induction t arbitrary: cur) (auto simp: nonspace_def)

lemma tok_spaces: "list_all isspace ws \<Longrightarrow> tok [] (ws @ rest) = tok [] rest"
  by (induction ws) auto

lemma tok_space:
  "ws \<noteq> [] \<Longrightarrow> list_all isspace ws \<Longrightarrow>
   tok cur (ws @ rest) = (if cur = [] then [] else [cur]) @ tok [] rest"
  by (cases ws) (auto simp: tok_spaces)

lemma tok_split:
  "pre \<noteq> [] \<Longrightarrow> isspace (last pre) \<Longrightarrow> tok cur (pre @ x) = tok cur pre @ tok [] x"
proof (induction pre arbitrary: cur)
  case Nil
  then show ?case by simp
next
  case (Cons c pre)
  show ?case
  proof (cases "pre = []")
    case True
    with Cons.prems show ?thesis by simp
  next
    case False
    with Cons.prems have "isspace (last pre)" by simp
    from Cons.IH [OF False this] show ?thesis by simp
  qed
qed

lemma tokens_single: "token c \<Longrightarrow> tokens c = [c]"
  using tok_nonspace [of c "[]" "[]"] by (simp add: tokens_def token_def)

lemma tokens_last_two:
  assumes "last_two_tokens c t1 t2"
  shows "\<exists>ts. tokens c = ts @ [t1, t2]"
proof -
  from assms obtain pre ws where c: "c = pre @ t1 @ ws @ t2" "pre = [] \<or> isspace (last pre)"
    "t1 \<noteq> []" "list_all nonspace t1" "ws \<noteq> []" "list_all isspace ws"
    "t2 \<noteq> []" "list_all nonspace t2"
    unfolding last_two_tokens_def token_def by blast
  have "tok [] (t1 @ ws @ t2) = tok t1 (ws @ t2)"
    using tok_nonspace [OF c(4), of "[]"] by simp
  also have "\<dots> = [t1] @ tok [] t2" using tok_space [OF c(5,6), of t1 t2] c(3) by simp
  also have "tok [] t2 = [t2]" using tok_nonspace [OF c(8), of "[]" "[]"] c(7) by simp
  finally have 1: "tok [] (t1 @ ws @ t2) = [t1, t2]" by simp
  have "tokens c = tokens pre @ [t1, t2]"
  proof (cases "pre = []")
    case True
    with 1 c(1) show ?thesis by (simp add: tokens_def)
  next
    case False
    with c(2) have "isspace (last pre)" by simp
    from tok_split [OF False this, of "[]" "t1 @ ws @ t2"] 1 c(1) show ?thesis
      by (simp add: tokens_def)
  qed
  then show ?thesis by blast
qed

section \<open>Lines under \<open>dependencies_not_found\<close>\<close>

lemma name_version_re_shape:
  assumes "rmatch name_version_re p w a"
  shows "\<exists>X Y. w = X @ '' '' @ Y \<and> X \<noteq> [] \<and> list_all nonspace X \<and>
           Y \<noteq> [] \<and> list_all nonspace Y \<and> list_all isspace a"
proof -
  from assms obtain X Y where
    "w = X @ '' '' @ Y" "X \<noteq> []" "list_all nonspace X" "Y \<noteq> []" "list_all nonspace Y"
    "a = [] \<or> a = [NL]"
    unfolding name_version_re_def by auto
  then show ?thesis
    by (intro exI [of _ X] exI [of _ Y]) (auto simp: isspace_NL)
qed

lemma nonspace_last: "x \<noteq> [] \<Longrightarrow> list_all nonspace x \<Longrightarrow> \<not> isspace (last x)"
  by (cases x rule: rev_cases) (auto simp: nonspace_def)

lemma name_version_re_no_early_match:
  assumes v: "v \<noteq> []" "isspace (last v)"
    and t1: "t1 \<noteq> []" "list_all nonspace t1"
    and t2: "t2 \<noteq> []" "list_all nonspace t2"
  shows "ms name_version_re (p, v @ t1 @ '' '' @ t2, g) = []"
proof (rule ccontr)
  assume "ms name_version_re (p, v @ t1 @ '' '' @ t2, g) \<noteq> []"
  then obtain w a where wa: "v @ t1 @ '' '' @ t2 = w @ a" "rmatch name_version_re p w a"
    unfolding ms_empty_iff by blast
  from name_version_re_shape [OF wa(2)] obtain X Y where
    s: "w = X @ '' '' @ Y" "X \<noteq> []" "list_all nonspace X" "Y \<noteq> []" "list_all nonspace Y"
    "list_all isspace a" by blast
  from wa(1) s(1) have "(v @ t1 @ '' '' @ t2) @ [] = (X @ '' '' @ Y) @ a" by simp
  from split_last_run [OF this, of isspace] s(4,6) t2(1) nonspace_last [OF t2]
    nonspace_last [OF s(4,5)]
  have "v @ t1 @ '' '' @ t2 = X @ '' '' @ Y" by simp
  then have "(v @ t1 @ '' '') @ t2 = (X @ '' '') @ Y" by simp
  from split_last_run [OF this, of nonspace] t2(2) s(5)
  have "v @ t1 @ '' '' = X @ '' ''" by (simp add: nonspace_def isspace_def)
  then have 3: "v @ t1 = X" by simp
  from v(1) have "last v \<in> set v" by simp
  with 3 have "last v \<in> set X" by auto
  with s(3) have "nonspace (last v)" by (simp add: list_all_iff)
  with v(2) show False by (simp add: nonspace_def)
qed

lemma name_version_re_match_here:
  assumes t1: "t1 \<noteq> []" "list_all nonspace t1"
    and t2: "t2 \<noteq> []" "list_all nonspace t2"
  shows "\<exists>q a' g rest. ms name_version_re (p, t1 @ '' '' @ t2, Map.empty) = (q, a', g) # rest \<and>
           g 1 = Some t1 \<and> g 2 = Some t2"
proof -
  have sp: "\<not> nonspace (hd ('' '' @ t2))" by (simp add: nonspace_def isspace_def)
  from ms_Plus_hd [OF t1, of "'' '' @ t2" p Map.empty] sp obtain r1 where
    "ms (Plus nonspace) (p, t1 @ '' '' @ t2, Map.empty) =
       (p + length t1, '' '' @ t2, Map.empty) # r1"
    by auto
  from ms_Grp_hd [OF this, of 1] obtain r1' where
    1: "ms (Grp 1 (Plus nonspace)) (p, t1 @ '' '' @ t2, Map.empty) =
          (p + length t1, '' '' @ t2, [1 \<mapsto> t1]) # r1'" by auto
  have 2: "ms (Str '' '') (p + length t1, '' '' @ t2, [1 \<mapsto> t1]) =
          (p + length t1 + length '' '', t2, [1 \<mapsto> t1]) # []"
    by (rule ms_Str_hd)
  from ms_Plus_hd [OF t2, of "[]" "p + length t1 + length '' ''" "[1 \<mapsto> t1]"] obtain r3 where
    "ms (Plus nonspace) (p + length t1 + length '' '', t2, [1 \<mapsto> t1]) =
       (p + length t1 + length '' '' + length t2, [], [1 \<mapsto> t1]) # r3" by auto
  from ms_Grp_hd [OF this, of 2] obtain r3' where
    3: "ms (Grp 2 (Plus nonspace)) (p + length t1 + length '' '', t2, [1 \<mapsto> t1]) =
       (p + length t1 + length '' '' + length t2, [], [1 \<mapsto> t1, 2 \<mapsto> t2]) # r3'" by auto
  let ?r4 = "Cat Eol (Str [])"
  let ?r3 = "Cat (Grp 2 (Plus nonspace)) ?r4"
  let ?r2 = "Cat (Str '' '') ?r3"
  have 4: "ms ?r4 (p + length t1 + length '' '' + length t2, [], [1 \<mapsto> t1, 2 \<mapsto> t2]) =
       (p + length t1 + length '' '' + length t2, [], [1 \<mapsto> t1, 2 \<mapsto> t2]) # []" by simp
  from ms_Cat_hd [OF 3 4] obtain r4 where
    "ms ?r3 (p + length t1 + length '' '', t2, [1 \<mapsto> t1]) =
       (p + length t1 + length '' '' + length t2, [], [1 \<mapsto> t1, 2 \<mapsto> t2]) # r4" by blast
  from ms_Cat_hd [OF 2 this] obtain r5 where
    "ms ?r2 (p + length t1, '' '' @ t2, [1 \<mapsto> t1]) =
       (p + length t1 + length '' '' + length t2, [], [1 \<mapsto> t1, 2 \<mapsto> t2]) # r5" by blast
  from ms_Cat_hd [OF 1 this] obtain r6 where
    "ms name_version_re (p, t1 @ '' '' @ t2, Map.empty) =
       (p + length t1 + length '' '' + length t2, [], [1 \<mapsto> t1, 2 \<mapsto> t2]) # r6"
    unfolding name_version_re_def seq.simps by blast
  then show ?thesis by auto
qed

lemma name_version_re_last_two:
  assumes pre: "pre = [] \<or> isspace (last pre)"
    and t1: "t1 \<noteq> []" "list_all nonspace t1"
    and t2: "t2 \<noteq> []" "list_all nonspace t2"
  shows "\<exists>m. re_search name_version_re (pre @ t1 @ '' '' @ t2) = Some m \<and>
           m_groups m 1 = Some t1 \<and> m_groups m 2 = Some t2"
proof -
  have "\<forall>u v. pre = u @ v \<and> v \<noteq> [] \<longrightarrow>
          ms name_version_re (0 + length u, v @ t1 @ '' '' @ t2, Map.empty) = []"
  proof (intro allI impI)
    fix u v assume uv: "pre = u @ v \<and> v \<noteq> []"
    with pre have "isspace (last v)" by auto
    with uv name_version_re_no_early_match [OF _ _ t1 t2]
    show "ms name_version_re (0 + length u, v @ t1 @ '' '' @ t2, Map.empty) = []" by blast
  qed
  from search_from_skip [OF this]
  have "re_search name_version_re (pre @ t1 @ '' '' @ t2) =
          search_from name_version_re (length pre) (t1 @ '' '' @ t2)"
    by (simp add: re_search_def)
  moreover from name_version_re_match_here [OF t1 t2, of "length pre"] obtain q a' g rest where
    "ms name_version_re (length pre, t1 @ '' '' @ t2, Map.empty) = (q, a', g) # rest"
    "g 1 = Some t1" "g 2 = Some t2" by blast
  ultimately show ?thesis using search_from_hit by fastforce
qed

lemma built_locally_line_groups:
  assumes "found built_locally_re (clean_line line)"
  shows "\<exists>m. re_search name_version_re (clean_line line) = Some m \<and>
           m_groups m 1 = Some ''BUILT'' \<and> m_groups m 2 = Some ''LOCALLY)''"
proof -
  let ?c = "clean_line line"
  from assms have "occurs built_locally_re ?c" by (simp add: found_occurs)
  then obtain pre w post where w: "?c = pre @ w @ post"
    "rmatch built_locally_re (length pre) w post"
    by (auto simp: occurs_def)
  from w(2) obtain x where x: "w = x @ '' BUILT LOCALLY)''" "post = [] \<or> post = [NL]"
    by (auto simp: built_locally_re_def)
  obtain y where c: "?c = strip y" by (simp add: clean_line_def Let_def)
  from w(1) x(1) have "?c \<noteq> []" by simp
  with c strip_ends [of y] have "\<not> isspace (last ?c)" by simp
  with w(1) x have "post = []" by (auto simp: isspace_NL)
  with w(1) x(1) have "?c = (pre @ x @ '' '') @ ''BUILT'' @ '' '' @ ''LOCALLY)''" by simp
  moreover have "\<exists>m. re_search name_version_re ((pre @ x @ '' '') @ ''BUILT'' @ '' '' @ ''LOCALLY)'')
           = Some m \<and> m_groups m 1 = Some ''BUILT'' \<and> m_groups m 2 = Some ''LOCALLY)''"
    by (rule name_version_re_last_two) (simp_all add: nonspace_def isspace_def)
  ultimately show ?thesis by simp
qed

lemma reclassifying_line_entry:
  assumes "current_section st = Some Not_found" "is_data (clean_line line)"
    and "found built_locally_re (clean_line line)"
  shows "\<exists>st'. parse_line line st = Inr st' \<and> current_section st' = Some Built_locally \<and>
           dependencies st' =
             append_entry Built_locally
               \<lparr>package = Some ''BUILT'', version = Some ''LOCALLY)''\<rparr> (dependencies st)"
proof -
  from assms(3) obtain m0 where m0: "re_search built_locally_re (clean_line line) = Some m0"
    by (auto simp: found_def split: option.splits)
  from built_locally_line_groups [OF assms(3)] obtain m where
    "re_search name_version_re (clean_line line) = Some m"
    "m_groups m 1 = Some ''BUILT''" "m_groups m 2 = Some ''LOCALLY)''" by blast
  with parse_line_reclassify [OF assms(1,2) m0] show ?thesis
    by (simp add: make_entry_def)
qed

lemma not_found_line_kept_whole:
  assumes "current_section st = Some Not_found" "is_data (clean_line line)"
    and "\<not> found built_locally_re (clean_line line)"
  shows "\<exists>st'. parse_line line st = Inr st' \<and> current_section st' = Some Not_found \<and>
           dependencies st' =
             append_entry Not_found
               \<lparr>package = Some (clean_line line), version = None\<rparr> (dependencies st)"
  using assms
  by (simp add: parse_line_data probe_def record_entry_def make_entry_def found_def
      split: option.splits)

section \<open>The sample log of the repository's test\<close>

text \<open>On the sample log of \<open>test_timestamp_parsing.py\<close> the section is located, and the parser
  returns four empty lists: the headers of that log begin with \<open>Dependencies\<close>, not with
  \<open>The following dependencies\<close>, so the assertions of the test on the lengths of the lists
  do not hold.\<close>

lemma test_log_yields_no_entries:
  "parse_dependency_section test_log = Inr (Report no_entries)"
  by code_simp

section \<open>The claims\<close>

subsection \<open>C1: the literal section of the specification's example\<close>

text \<open>
  Claim C1 expects, for the literal section \<open>sample_section\<close>, two entries found externally,
  one not found and one built locally.  The three header tests of \<open>_parse_dependencies\<close> look
  for phrases that begin with \<open>the following dependencies\<close>; the lines of the example begin
  with \<open>Dependencies\<close>, so none of them sets the current section and every line is skipped.
  The theorem evaluates the parser on the example: all four lists come out empty.  The
  repository's own test expects entries from a log with the same header lines
  (\<open>test_log_yields_no_entries\<close> above).
\<close>

theorem sample_section_yields_no_entries:
  "parse_dependencies sample_section = Inr no_entries"
  by code_simp

subsection \<open>C2: the decoration of the opening banner\<close>

text \<open>
  Claim C2 says that the start boundary is found whatever the decoration of the banner, in
  particular when the three rows carry no escape sequences.  The start pattern spells out
  one decoration: after the timestamp and \<open> -- \<close> each row begins with \<open>ESC[1;33m\<close> and ends
  with \<open>ESC[m\<close>.  On the log \<open>plain_log\<close>, whose banner has the timestamps, the rows of
  equals signs and the \<open>Dependency report\<close> line but no escape sequences, the locator reports
  that the section was not found.
\<close>

theorem plain_banner_not_found:
  "parse_dependency_section plain_log = Inr (Error ''Dependency report section not found'')"
  by code_simp

text \<open>
  C2 as amended: for every log in which the opening banner occurs with each row decorated
  as the pattern spells it out, the search for the start pattern succeeds at the first such
  banner and the start boundary is the position right after its third row; the locator
  does not report that the section was not found.
\<close>

theorem start_boundary_found:
  assumes "first_occurrence start_pattern pre w post"
  shows "(\<exists>m. re_search start_pattern (pre @ w @ post) = Some m \<and> m_start m = length pre \<and>
            m_end m = length pre + length w) \<and>
         parse_dependency_section (pre @ w @ post) \<noteq>
           Inr (Error ''Dependency report section not found'')"
proof -
  from start_boundary [OF assms] obtain m where
    m: "re_search start_pattern (pre @ w @ post) = Some m" by blast
  then have "parse_dependency_section (pre @ w @ post) \<noteq>
           Inr (Error ''Dependency report section not found'')"
    by (auto simp: parse_dependency_section_def Let_def split: option.splits sum.splits)
  with start_boundary [OF assms] show ?thesis by blast
qed

theorem start_boundary_found_witness:
  "first_occurrence start_pattern build_output opening_banner open_section \<and>
   (\<exists>m. re_search start_pattern (build_output @ opening_banner @ open_section) = Some m \<and>
      m_start m = length build_output \<and>
      m_end m = length build_output + length opening_banner) \<and>
   parse_dependency_section (build_output @ opening_banner @ open_section) \<noteq>
     Inr (Error ''Dependency report section not found'')"
  using start_boundary_found [OF opening_banner_first] opening_banner_first by blast

subsection \<open>C3: the entry of a reclassifying line\<close>

text \<open>
  Claim C3 says that a line of the shape \<open>name version  (TAG BUILT LOCALLY)\<close> met under
  \<open>dependencies_not_found\<close> is filed under \<open>dependencies_built_locally\<close> with the name as package
  and the version as version.  The section switch happens, but the second search uses
  \<open>(\S+) (\S+)$\<close>, whose \<open>$\<close> ties the match to the end of the line: its groups are the two
  words of the marker.  The theorem evaluates the parser on such a line: the entry is filed
  under \<open>dependencies_built_locally\<close>, with package \<open>BUILT\<close> and version \<open>LOCALLY)\<close>.
\<close>

theorem built_locally_line_yields_marker_words:
  "parse_dependencies
     (''The following dependencies were not found:'' @ [NL] @
      ''openexr 3.2.0  (v3 BUILT LOCALLY)'') =
   Inr (no_entries\<lparr>dependencies_built_locally :=
          [\<lparr>package = Some ''BUILT'', version = Some ''LOCALLY)''\<rparr>]\<rparr>)"
  by code_simp

subsection \<open>C4: a plain \<open>name version\<close> line under \<open>dependencies_not_found\<close>\<close>

text \<open>
  Claim C4 says that a line under \<open>dependencies_not_found\<close> that lacks the BUILT LOCALLY marker
  is probed for the plain shape \<open>name version\<close>.  The code runs that second search only after
  the first one has matched, so such a line is recorded whole, with no version.  The theorem
  evaluates the parser on the line \<open>foo 1.2\<close>.
\<close>

theorem not_found_name_version_kept_whole:
  "parse_dependencies
     (''The following dependencies were not found:'' @ [NL] @ ''foo 1.2'') =
   Inr (no_entries\<lparr>dependencies_not_found :=
          [\<lparr>package = Some ''foo 1.2'', version = None\<rparr>]\<rparr>)"
  by code_simp

subsection \<open>C5: the match of the reclassifying line is used again\<close>

text \<open>
  Claim C5: a reclassifying line (a data line under \<open>dependencies_not_found\<close> on which the
  BUILT LOCALLY pattern is found) leaves the search for \<open>(\S+) (\S+)$\<close> on that line in
  \<open>version_match\<close>, and that search has matched.  Of the lines after it, up to the next
  header line, every data line appends to \<open>dependencies_built_locally\<close> the entry made of
  groups 1 and 2 of that same match, whatever the text of the line: the list grows by one
  copy of that entry for each data line, and the other three lists do not change.
\<close>

theorem stale_match_is_reused:
  assumes "current_section st = Some Not_found"
    and "is_data (clean_line line)"
    and "found built_locally_re (clean_line line)"
    and "\<forall>l \<in> set ls. \<not> is_header (clean_line l)"
  shows "\<exists>m st1 st2.
           re_search name_version_re (clean_line line) = Some m \<and>
           parse_line line st = Inr st1 \<and>
           current_section st1 = Some Built_locally \<and>
           version_match st1 = Bound (Some m) \<and>
           parse_lines ls st1 = Inr st2 \<and>
           dependencies st2 =
             (dependencies st1)\<lparr>dependencies_built_locally :=
                dependencies_built_locally (dependencies st1) @
                replicate (length (filter (\<lambda>l. is_data (clean_line l)) ls))
                  \<lparr>package = m_groups m 1, version = m_groups m 2\<rparr>\<rparr>"
proof -
  from assms(3) obtain m0 where m0: "re_search built_locally_re (clean_line line) = Some m0"
    by (auto simp: found_def split: option.splits)
  from name_version_after_built_locally [OF m0] obtain m where
    m: "re_search name_version_re (clean_line line) = Some m" by auto
  let ?st1 = "st\<lparr>current_section := Some Built_locally,
            version_match := Bound (Some m),
            dependencies :=
              append_entry Built_locally (make_entry (clean_line line) (Some m))
                (dependencies st)\<rparr>"
  from parse_line_reclassify [OF assms(1,2) m0] m have 1: "parse_line line st = Inr ?st1"
    by simp
  from built_locally_repeats [of ?st1 m ls] assms(4) obtain st2 where
    "parse_lines ls ?st1 = Inr st2"
    "dependencies st2 =
             (dependencies ?st1)\<lparr>dependencies_built_locally :=
                dependencies_built_locally (dependencies ?st1) @
                replicate (length (filter (\<lambda>l. is_data (clean_line l)) ls))
                  \<lparr>package = m_groups m 1, version = m_groups m 2\<rparr>\<rparr>"
    by auto
  with 1 m show ?thesis by auto
qed

theorem stale_match_is_reused_witness:
  "current_section under_not_found = Some Not_found \<and>
   is_data (clean_line ''openexr 3.2.0  (v3 BUILT LOCALLY)'') \<and>
   found built_locally_re (clean_line ''openexr 3.2.0  (v3 BUILT LOCALLY)'') \<and>
   is_data (clean_line ''zlib 1.3'') \<and>
   \<not> is_header (clean_line '''') \<and> \<not> is_data (clean_line '''') \<and>
   is_data (clean_line ''libpng'') \<and>
   (\<exists>m st1 st2.
      re_search name_version_re (clean_line ''openexr 3.2.0  (v3 BUILT LOCALLY)'') = Some m \<and>
      parse_line ''openexr 3.2.0  (v3 BUILT LOCALLY)'' under_not_found = Inr st1 \<and>
      parse_lines [''zlib 1.3'', '''', ''libpng''] st1 = Inr st2 \<and>
      dependencies st2 =
        (dependencies st1)\<lparr>dependencies_built_locally :=
           dependencies_built_locally (dependencies st1) @
           replicate 2 \<lparr>package = m_groups m 1, version = m_groups m 2\<rparr>\<rparr>)"
proof -
  have h1: "current_section under_not_found = Some Not_found" by code_simp
  have h2: "is_data (clean_line ''openexr 3.2.0  (v3 BUILT LOCALLY)'')" by code_simp
  have h3: "found built_locally_re (clean_line ''openexr 3.2.0  (v3 BUILT LOCALLY)'')"
    by code_simp
  have h4: "is_data (clean_line ''zlib 1.3'')" by code_simp
  have h5: "\<not> is_header (clean_line '''')" "\<not> is_data (clean_line '''')" by code_simp+
  have h6: "is_data (clean_line ''libpng'')" by code_simp
  from h4 h5 h6
  have h: "\<forall>l \<in> set [''zlib 1.3'', '''', ''libpng'']. \<not> is_header (clean_line l)"
    by (simp add: is_data_def)
  from stale_match_is_reused [OF h1 h2 h3 h] obtain m st1 st2 where
    "re_search name_version_re (clean_line ''openexr 3.2.0  (v3 BUILT LOCALLY)'') = Some m"
    "parse_line ''openexr 3.2.0  (v3 BUILT LOCALLY)'' under_not_found = Inr st1"
    "parse_lines [''zlib 1.3'', '''', ''libpng''] st1 = Inr st2"
    "dependencies st2 =
        (dependencies st1)\<lparr>dependencies_built_locally :=
           dependencies_built_locally (dependencies st1) @
           replicate (length (filter (\<lambda>l. is_data (clean_line l)) [''zlib 1.3'', '''', ''libpng'']))
             \<lparr>package = m_groups m 1, version = m_groups m 2\<rparr>\<rparr>"
    by blast
  with h1 h2 h3 h4 h5 h6 show ?thesis by (simp add: numeral_2_eq_2)
qed

subsection \<open>C6: the two failures of the locator\<close>

text \<open>
  Claim C6, the opening banner being what the start pattern matches and a closing banner
  line what the end pattern matches: a log in which the opening banner occurs nowhere
  yields the error \<open>Dependency report section not found\<close> and nothing else; a log in which
  the first opening banner is followed by no closing banner line yields the error
  \<open>End of dependency report section not found\<close> and nothing else; and the result of
  \<open>parse_dependency_section\<close> is either an error or the four lists, never both.
\<close>

theorem locator_failures:
  "(\<not> occurs start_pattern log_content \<longrightarrow>
      parse_dependency_section log_content =
        Inr (Error ''Dependency report section not found'')) \<and>
   (first_occurrence start_pattern pre w post \<and> \<not> occurs end_pattern post \<longrightarrow>
      parse_dependency_section (pre @ w @ post) =
        Inr (Error ''End of dependency report section not found'')) \<and>
   ((\<exists>e. parse_dependency_section log_content = Inr (Error e)) \<noteq>
    (\<exists>d. parse_dependency_section log_content = Inr (Report d)))"
proof (intro conjI impI)
  assume "\<not> occurs start_pattern log_content"
  then have "re_search start_pattern log_content = None" by (simp add: re_search_None_iff)
  then show "parse_dependency_section log_content =
        Inr (Error ''Dependency report section not found'')"
    by (simp add: parse_dependency_section_def)
next
  assume a: "first_occurrence start_pattern pre w post \<and> \<not> occurs end_pattern post"
  with start_boundary [of pre w post] obtain m where
    m: "re_search start_pattern (pre @ w @ post) = Some m" "m_end m = length pre + length w"
    by blast
  from a have "re_search end_pattern post = None" by (simp add: re_search_None_iff)
  with m show "parse_dependency_section (pre @ w @ post) =
        Inr (Error ''End of dependency report section not found'')"
    by (simp add: parse_dependency_section_def)
next
  from parse_dependency_section_total [of log_content] obtain r where
    "parse_dependency_section log_content = Inr r" by blast
  then show "(\<exists>e. parse_dependency_section log_content = Inr (Error e)) \<noteq>
    (\<exists>d. parse_dependency_section log_content = Inr (Report d))"
    by (cases r) auto
qed

theorem locator_failures_witness:
  "\<not> occurs start_pattern build_output \<and>
   parse_dependency_section build_output =
     Inr (Error ''Dependency report section not found'') \<and>
   first_occurrence start_pattern build_output opening_banner open_section \<and>
   \<not> occurs end_pattern open_section \<and>
   parse_dependency_section (build_output @ opening_banner @ open_section) =
     Inr (Error ''End of dependency report section not found'')"
proof -
  have "\<not> found start_pattern build_output" by code_simp
  then have h1: "\<not> occurs start_pattern build_output" by (simp add: found_occurs)
  have "\<not> found end_pattern open_section" by code_simp
  then have h2: "\<not> occurs end_pattern open_section" by (simp add: found_occurs)
  from locator_failures [of build_output build_output opening_banner open_section]
    h1 h2 opening_banner_first
  show ?thesis by blast
qed

subsection \<open>C7: the cursor stays on \<open>dependencies_built_locally\<close>\<close>

text \<open>
  Claim C7: after a reclassifying line the current section is
  \<open>dependencies_built_locally\<close>, and it is still \<open>dependencies_built_locally\<close> after any
  further lines none of which is a header line.
\<close>

theorem cursor_stays_built_locally:
  assumes "current_section st = Some Not_found"
    and "is_data (clean_line line)"
    and "found built_locally_re (clean_line line)"
    and "\<forall>l \<in> set ls. \<not> is_header (clean_line l)"
  shows "\<exists>st1 st2. parse_line line st = Inr st1 \<and> current_section st1 = Some Built_locally \<and>
           parse_lines ls st1 = Inr st2 \<and> current_section st2 = Some Built_locally"
proof -
  from assms(3) obtain m0 where m0: "re_search built_locally_re (clean_line line) = Some m0"
    by (auto simp: found_def split: option.splits)
  let ?st1 = "st\<lparr>current_section := Some Built_locally,
            version_match := Bound (re_search name_version_re (clean_line line)),
            dependencies :=
              append_entry Built_locally
                (make_entry (clean_line line) (re_search name_version_re (clean_line line)))
                (dependencies st)\<rparr>"
  from parse_line_reclassify [OF assms(1,2) m0] have 1: "parse_line line st = Inr ?st1" .
  from built_locally_stays [of ?st1 "re_search name_version_re (clean_line line)" ls] assms(4)
  obtain st2 where "parse_lines ls ?st1 = Inr st2" "current_section st2 = Some Built_locally"
    by auto
  with 1 show ?thesis by auto
qed

theorem cursor_stays_built_locally_witness:
  "current_section under_not_found = Some Not_found \<and>
   is_data (clean_line ''openexr 3.2.0  (v3 BUILT LOCALLY)'') \<and>
   found built_locally_re (clean_line ''openexr 3.2.0  (v3 BUILT LOCALLY)'') \<and>
   \<not> is_header (clean_line ''zlib 1.3'') \<and>
   \<not> is_header (clean_line '''') \<and>
   \<not> is_header (clean_line ''Dependencies not found:'') \<and>
   (\<exists>st1 st2.
      parse_line ''openexr 3.2.0  (v3 BUILT LOCALLY)'' under_not_found = Inr st1 \<and>
      current_section st1 = Some Built_locally \<and>
      parse_lines [''zlib 1.3'', '''', ''Dependencies not found:''] st1 = Inr st2 \<and>
      current_section st2 = Some Built_locally)"
proof -
  have h1: "current_section under_not_found = Some Not_found" by code_simp
  have h2: "is_data (clean_line ''openexr 3.2.0  (v3 BUILT LOCALLY)'')" by code_simp
  have h3: "found built_locally_re (clean_line ''openexr 3.2.0  (v3 BUILT LOCALLY)'')"
    by code_simp
  have h4: "\<not> is_header (clean_line ''zlib 1.3'')" by code_simp
  have h5: "\<not> is_header (clean_line '''')" by code_simp
  have h6: "\<not> is_header (clean_line ''Dependencies not found:'')" by code_simp
  from h4 h5 h6
  have h: "\<forall>l \<in> set [''zlib 1.3'', '''', ''Dependencies not found:'']. \<not> is_header (clean_line l)"
    by simp
  from cursor_stays_built_locally [OF h1 h2 h3 h] h1 h2 h3 h4 h5 h6 show ?thesis by blast
qed

subsection \<open>C8: entries under \<open>dependencies_found_externally\<close>\<close>

text \<open>
  Claim C8: for a data line met under \<open>dependencies_found_externally\<close>, if the cleaned line
  has two or more whitespace-separated tokens, the entry appended has the second-to-last
  token as package and the last token as version; if it has exactly one token, the entry
  has that token as package and no version.  A cleaned data line has at least one token.
\<close>

theorem found_externally_entry:
  assumes "current_section st = Some Found_externally" and "is_data (clean_line line)"
  shows "(tokens (clean_line line) = ts @ [t1, t2] \<longrightarrow>
            (\<exists>st'. parse_line line st = Inr st' \<and>
               dependencies st' =
                 append_entry Found_externally \<lparr>package = Some t1, version = Some t2\<rparr>
                   (dependencies st))) \<and>
         (tokens (clean_line line) = [t] \<longrightarrow>
            (\<exists>st'. parse_line line st = Inr st' \<and>
               dependencies st' =
                 append_entry Found_externally \<lparr>package = Some t, version = None\<rparr>
                   (dependencies st))) \<and>
         tokens (clean_line line) \<noteq> []"
proof -
  let ?c = "clean_line line"
  from assms(2) have "?c \<noteq> []" by (simp add: is_data_def)
  from clean_line_cases [OF this]
  consider (one) "token ?c" | (more) u1 u2 where "last_two_tokens ?c u1 u2" by blast
  then show ?thesis
  proof cases
    case one
    then have tk: "tokens ?c = [?c]" by (rule tokens_single)
    from one have "re_search found_re ?c = None"
      by (simp add: token_def found_re_single_token)
    with parse_line_found_externally [OF assms]
    have "\<exists>st'. parse_line line st = Inr st' \<and>
               dependencies st' =
                 append_entry Found_externally \<lparr>package = Some ?c, version = None\<rparr>
                   (dependencies st)"
      by (simp add: make_entry_def)
    with tk show ?thesis by auto
  next
    case more
    from tokens_last_two [OF more] obtain us where tk: "tokens ?c = us @ [u1, u2]" by blast
    from more obtain pre ws where c: "?c = pre @ u1 @ ws @ u2"
      "pre = [] \<or> isspace (last pre)" "u1 \<noteq> []" "list_all nonspace u1" "ws \<noteq> []"
      "list_all isspace ws" "u2 \<noteq> []" "list_all nonspace u2"
      unfolding last_two_tokens_def token_def by blast
    from found_re_last_two [OF c(2-8)] c(1) obtain m where
      "re_search found_re ?c = Some m" "m_groups m 1 = Some u1" "m_groups m 2 = Some u2"
      by auto
    with parse_line_found_externally [OF assms]
    have "\<exists>st'. parse_line line st = Inr st' \<and>
               dependencies st' =
                 append_entry Found_externally \<lparr>package = Some u1, version = Some u2\<rparr>
                   (dependencies st)"
      by (simp add: make_entry_def)
    with tk show ?thesis by auto
  qed
qed

theorem found_externally_entry_witness:
  "current_section under_found_externally = Some Found_externally \<and>
   is_data (clean_line ''  OpenEXR 3.2.0 >= 2.4'') \<and>
   tokens (clean_line ''  OpenEXR 3.2.0 >= 2.4'') = [''OpenEXR'', ''3.2.0''] @ [''>='', ''2.4''] \<and>
   (\<exists>st'. parse_line ''  OpenEXR 3.2.0 >= 2.4'' under_found_externally = Inr st' \<and>
      dependencies st' =
        append_entry Found_externally \<lparr>package = Some ''>='', version = Some ''2.4''\<rparr>
          (dependencies under_found_externally)) \<and>
   is_data (clean_line ''  zlib'') \<and>
   tokens (clean_line ''  zlib'') = [''zlib''] \<and>
   (\<exists>st'. parse_line ''  zlib'' under_found_externally = Inr st' \<and>
      dependencies st' =
        append_entry Found_externally \<lparr>package = Some ''zlib'', version = None\<rparr>
          (dependencies under_found_externally))"
proof -
  have h1: "current_section under_found_externally = Some Found_externally" by code_simp
  have h2: "is_data (clean_line ''  OpenEXR 3.2.0 >= 2.4'')" by code_simp
  have h3: "tokens (clean_line ''  OpenEXR 3.2.0 >= 2.4'') =
      [''OpenEXR'', ''3.2.0''] @ [''>='', ''2.4'']" by code_simp
  have h4: "is_data (clean_line ''  zlib'')" by code_simp
  have h5: "tokens (clean_line ''  zlib'') = [''zlib'']" by code_simp
  from found_externally_entry [OF h1 h2, of "[''OpenEXR'', ''3.2.0'']" "''>=''" "''2.4''"]
    found_externally_entry [OF h1 h4, of _ _ _ "''zlib''"] h1 h2 h3 h4 h5
  show ?thesis by blast
qed

subsection \<open>C9: cleaning twice\<close>

text \<open>
  Claim C9 says that cleaning is idempotent.  Each pattern of \<open>_clean_line\<close> is applied once,
  in a fixed order, and removing one piece of decoration can bring another to the front:
  the raw line \<open>-- --x\<close> cleans to \<open>--x\<close>, which cleans to \<open>x\<close>.
\<close>

theorem clean_line_not_idempotent:
  "clean_line (clean_line ''-- --x'') \<noteq> clean_line ''-- --x''"
  by code_simp

text \<open>
  C9 as amended: cleaning the output of the cleaner again changes nothing exactly when none
  of the cleaner's patterns (the leading timestamp, an escape sequence
  \<open>ESC [ params letter\<close>, the leading run of two or more hyphens) is found in that output.
\<close>

theorem clean_line_twice:
  "clean_line (clean_line s) = clean_line s \<longleftrightarrow>
     \<not> found ts_prefix_re (clean_line s) \<and>
     \<not> found ansi_re (clean_line s) \<and>
     \<not> found bullet_re (clean_line s)"
proof -
  have st: "strip (clean_line s) = clean_line s"
    by (simp add: clean_line_def strip_strip)
  show ?thesis
    using clean_line_fixed [OF st] clean_line_changes [OF st] by blast
qed

theorem clean_line_twice_witness:
  "\<not> found ts_prefix_re (clean_line decorated_line) \<and>
   \<not> found ansi_re (clean_line decorated_line) \<and>
   \<not> found bullet_re (clean_line decorated_line) \<and>
   clean_line (clean_line decorated_line) = clean_line decorated_line \<and>
   found bullet_re (clean_line ''-- --x'') \<and>
   clean_line (clean_line ''-- --x'') \<noteq> clean_line ''-- --x''"
proof -
  have h1: "\<not> found ts_prefix_re (clean_line decorated_line)" by code_simp
  have h2: "\<not> found ansi_re (clean_line decorated_line)" by code_simp
  have h3: "\<not> found bullet_re (clean_line decorated_line)" by code_simp
  have h4: "found bullet_re (clean_line ''-- --x'')" by code_simp
  from clean_line_twice [of decorated_line] clean_line_twice [of "''-- --x''"] h1 h2 h3 h4
  show ?thesis by blast
qed

subsection \<open>C10: the parser is total\<close>

text \<open>
  Claim C10: \<open>parse_dependency_section\<close> and \<open>_parse_dependencies\<close> return a value on every
  input, no exception is raised (the model's \<open>Inl\<close> is never the result); and in every
  state that the loop reaches, a data line met while a section is current appends one
  entry, the one made from the match or, without a match, the whole cleaned line with no
  version.
\<close>

theorem parse_is_total:
  "(\<exists>r. parse_dependency_section log_content = Inr r) \<and>
   (\<exists>d. parse_dependencies section = Inr d) \<and>
   (\<exists>st. parse_lines lines initial = Inr st \<and>
      (\<forall>k. current_section st = Some k \<and> is_data (clean_line line) \<longrightarrow>
         (\<exists>st' k' vm. parse_line line st = Inr st' \<and>
            dependencies st' =
              append_entry k' (make_entry (clean_line line) vm) (dependencies st))))"
proof -
  from parse_lines_total [OF assigned_initial, of lines] obtain st where
    st: "parse_lines lines initial = Inr st" "assigned st" by auto
  have "\<exists>st' k' vm. parse_line line st = Inr st' \<and>
            dependencies st' =
              append_entry k' (make_entry (clean_line line) vm) (dependencies st)"
    if "current_section st = Some k" "is_data (clean_line line)" for k
  proof -
    from parse_line_data_appends [OF st(2) that] obtain k' vm where
      "parse_line line st =
           Inr (st\<lparr>current_section := Some k', version_match := Bound vm,
                  dependencies :=
                    append_entry k' (make_entry (clean_line line) vm) (dependencies st)\<rparr>)"
      by blast
    then show ?thesis by (intro exI [of _ k'] exI [of _ vm] exI) auto
  qed
  with st(1) parse_dependency_section_total [of log_content]
    parse_dependencies_total [of "section"]
  show ?thesis by blast
qed

theorem parse_is_total_witness:
  "\<exists>st. parse_lines [''The following dependencies found externally:''] initial = Inr st \<and>
     current_section st = Some Found_externally \<and>
     is_data (clean_line ''  cmake 3.28.1'') \<and>
     (\<exists>st' k' vm. parse_line ''  cmake 3.28.1'' st = Inr st' \<and>
        dependencies st' =
          append_entry k' (make_entry (clean_line ''  cmake 3.28.1'') vm) (dependencies st))"
proof -
  from parse_is_total [of "[]" "[]" "[''The following dependencies found externally:'']"
      "''  cmake 3.28.1''"]
  obtain st where st: "parse_lines [''The following dependencies found externally:''] initial = Inr st"
    and imp: "\<forall>k. current_section st = Some k \<and> is_data (clean_line ''  cmake 3.28.1'') \<longrightarrow>
         (\<exists>st' k' vm. parse_line ''  cmake 3.28.1'' st = Inr st' \<and>
            dependencies st' =
              append_entry k' (make_entry (clean_line ''  cmake 3.28.1'') vm) (dependencies st))"
    by blast
  have "case parse_lines [''The following dependencies found externally:''] initial of
          Inl e \<Rightarrow> False | Inr s \<Rightarrow> current_section s = Some Found_externally"
    by code_simp
  with st have cur: "current_section st = Some Found_externally" by simp
  have data: "is_data (clean_line ''  cmake 3.28.1'')" by code_simp
  from imp cur data st show ?thesis by blast
qed

end
